theory Spec2Isabelle
  imports
    Complex_Main
    "HOL-Library.Word"
    "HOL-Library.List_Lexorder"
    "HOL-Library.AList"
    "HOL-Library.Log_Nat"
begin

section \<open>JavaScript values\<close>

text \<open>
  A JavaScript string is a sequence of UTF-16 code units. The regular expressions of
  \<^verbatim>\<open>validate.js\<close> carry no \<^verbatim>\<open>u\<close> flag, so they work on code units too, and
  \<^verbatim>\<open>Array.prototype.sort\<close> without a comparator orders strings by code units, which is
  the lexicographic order of lists of words.
\<close>

type_synonym jschar = "16 word"
type_synonym jsstring = "jschar list"

definition js :: "string \<Rightarrow> jsstring" where
  "js s = map of_char s"

text \<open>
  The values that occur: what \<^verbatim>\<open>JSON.parse\<close> returns, and \<^verbatim>\<open>undefined\<close>, the value
  of a property that is not there. A JSON number is a double; the finite doubles are
  rationals. An object is the list of its own properties, keys distinct.
\<close>

datatype jsval =
    JUndefined
  | JNull
  | JBool bool
  | JNum rat
  | JStr jsstring
  | JArr "jsval list"
  | JObj "(jsstring \<times> jsval) list"

datatype js_type = TUndefined | TObject | TBoolean | TNumber | TString

fun typeof :: "jsval \<Rightarrow> js_type" where
  "typeof JUndefined = TUndefined"
| "typeof JNull = TObject"
| "typeof (JBool b) = TBoolean"
| "typeof (JNum n) = TNumber"
| "typeof (JStr s) = TString"
| "typeof (JArr xs) = TObject"
| "typeof (JObj ps) = TObject"

text \<open>
  \<^verbatim>\<open>a === b\<close>. Two arrays or objects are equal only when they are the same object;
  a value parsed from one file is never the same object as a value of another file.
\<close>

fun strict_eq :: "jsval \<Rightarrow> jsval \<Rightarrow> bool" where
  "strict_eq JUndefined JUndefined = True"
| "strict_eq JNull JNull = True"
| "strict_eq (JBool a) (JBool b) = (a = b)"
| "strict_eq (JNum a) (JNum b) = (a = b)"
| "strict_eq (JStr a) (JStr b) = (a = b)"
| "strict_eq a b = False"

datatype js_error = TypeError

text \<open>
  The own properties of a string or of an array of length \<open>len\<close> are \<^verbatim>\<open>length\<close> and the
  indices below \<open>len\<close>, written in decimal without leading zeros.
\<close>

fun digits10 :: "nat \<Rightarrow> jsstring" where
  "digits10 n =
     (if n < 10 then [of_nat (48 + n)]
      else digits10 (n div 10) @ [of_nat (48 + n mod 10)])"

declare digits10.simps [simp del]

definition index_of :: "nat \<Rightarrow> jsstring \<Rightarrow> nat option" where
  "index_of len key = List.find (\<lambda>i. digits10 i = key) [0..<len]"

text \<open>
  \<^verbatim>\<open>Object.hasOwn(v, key)\<close> starts with \<^verbatim>\<open>ToObject(v)\<close>, which throws a TypeError for
  \<^verbatim>\<open>null\<close> and \<^verbatim>\<open>undefined\<close> and wraps a boolean, a number or a string.
\<close>

fun has_own :: "jsval \<Rightarrow> jsstring \<Rightarrow> js_error + bool" where
  "has_own JUndefined key = Inl TypeError"
| "has_own JNull key = Inl TypeError"
| "has_own (JBool b) key = Inr False"
| "has_own (JNum n) key = Inr False"
| "has_own (JStr s) key = Inr (key = js ''length'' \<or> index_of (length s) key \<noteq> None)"
| "has_own (JArr xs) key = Inr (key = js ''length'' \<or> index_of (length xs) key \<noteq> None)"
| "has_own (JObj ps) key = Inr (map_of ps key \<noteq> None)"

text \<open>
  \<^verbatim>\<open>v[key]\<close> for an own property of \<open>v\<close>. (For a key that is not an own property
  JavaScript goes on to the prototype; the synchronizer reads a property only after
  \<^verbatim>\<open>Object.hasOwn\<close> said yes, or under a key taken from \<^verbatim>\<open>Object.keys\<close>.)
\<close>

fun get_prop :: "jsval \<Rightarrow> jsstring \<Rightarrow> jsval" where
  "get_prop (JStr s) key =
     (if key = js ''length'' then JNum (of_nat (length s))
      else case index_of (length s) key of Some i \<Rightarrow> JStr [s ! i] | None \<Rightarrow> JUndefined)"
| "get_prop (JArr xs) key =
     (if key = js ''length'' then JNum (of_nat (length xs))
      else case index_of (length xs) key of Some i \<Rightarrow> xs ! i | None \<Rightarrow> JUndefined)"
| "get_prop (JObj ps) key = (case map_of ps key of Some v \<Rightarrow> v | None \<Rightarrow> JUndefined)"
| "get_prop v key = JUndefined"

text \<open>
  \<^verbatim>\<open>obj[key] = v\<close> on an object made by the literal \<^verbatim>\<open>{}\<close>, as a list of own
  properties: the value of an own property is replaced, a new property is added at the
  end. The key \<^verbatim>\<open>__proto__\<close> is the exception: the object inherits the accessor
  \<^verbatim>\<open>Object.prototype.__proto__\<close>, so the assignment calls its setter, which changes
  the prototype when \<open>v\<close> is an object or \<^verbatim>\<open>null\<close> and does nothing otherwise; in
  neither case does the object get an own property. (\<^verbatim>\<open>JSON.parse\<close> defines
  properties instead of assigning them, so a parsed object can have the own key
  \<^verbatim>\<open>__proto__\<close>.) JavaScript lists integer-like keys before the others; no operation
  here depends on the order of the merged object, and it is not modelled.
\<close>

definition obj_set :: "(jsstring \<times> jsval) list \<Rightarrow> jsstring \<Rightarrow> jsval \<Rightarrow> (jsstring \<times> jsval) list" where
  "obj_set obj key v = (if key = js ''__proto__'' then obj else AList.update key v obj)"

section \<open>Double arithmetic\<close>

text \<open>
  Division and multiplication of doubles return the double nearest to the exact result,
  ties to the even mantissa. \<open>fl x\<close> is that double for a rational \<open>x\<close> in the normal
  range (53-bit mantissa; the completion statistic stays between \<open>2\<^sup>-\<^sup>3\<^sup>2\<close> and \<open>1000\<close>).
\<close>

definition ilog2 :: "rat \<Rightarrow> int" where
  "ilog2 x =
     (let (p, q) = quotient_of x; d = bitlen p - bitlen q
      in if 2 powi d \<le> x then d else d - 1)"

definition round_even :: "rat \<Rightarrow> int" where
  "round_even m =
     (let f = \<lfloor>m\<rfloor>; r = m - of_int f
      in if r < 1 / 2 then f else if 1 / 2 < r then f + 1 else if even f then f else f + 1)"

definition fl :: "rat \<Rightarrow> rat" where
  "fl x =
     (if x = 0 then 0
      else let e = ilog2 \<bar>x\<bar> - 52
           in of_int (round_even (x / 2 powi e)) * 2 powi e)"

text \<open>\<^verbatim>\<open>Math.round\<close>: the nearest integer, a tie going up.\<close>

definition js_round :: "rat \<Rightarrow> int" where
  "js_round x = \<lfloor>x + 1 / 2\<rfloor>"

section \<open>The synchronizer (sync-i18n.js)\<close>

text \<open>
  The source mapping \<^verbatim>\<open>enContent\<close> is an object whose values are strings;
  \<^verbatim>\<open>Object.keys(enContent)\<close> is the list of its keys and \<^verbatim>\<open>enContent[key]\<close> a lookup.
\<close>

type_synonym source = "(jsstring \<times> jsstring) list"

definition en_get :: "source \<Rightarrow> jsstring \<Rightarrow> jsval" where
  "en_get enContent key = (case map_of enContent key of Some v \<Rightarrow> JStr v | None \<Rightarrow> JUndefined)"

text \<open>
  What is on disk under \<^verbatim>\<open><lang>.json\<close>: nothing, or a file whose reading and
  parsing throws (with a message) or returns a value.
\<close>

datatype read_result = Failed jsstring | Content jsval

datatype lang_file = Absent | Present read_result

fun read_lang :: "lang_file \<Rightarrow> jsval" where
  "read_lang Absent = JObj []"
| "read_lang (Present (Failed msg)) = JObj []"
| "read_lang (Present (Content v)) = v"

record sync_state =
  merged :: "(jsstring \<times> jsval) list"
  untranslatedKeys :: "jsstring list"
  missingKeys :: "jsstring list"

fun sync_loop :: "source \<Rightarrow> jsval \<Rightarrow> jsstring list \<Rightarrow> sync_state \<Rightarrow> js_error + sync_state" where
  "sync_loop enContent langContent [] st = Inr st"
| "sync_loop enContent langContent (key # keys) st =
     (case has_own langContent key of
        Inl e \<Rightarrow> Inl e
      | Inr True \<Rightarrow>
          (let v = get_prop langContent key;
               st1 = st\<lparr>merged := obj_set (merged st) key v\<rparr>;
               st2 = (if strict_eq v (en_get enContent key)
                      then st1\<lparr>untranslatedKeys := untranslatedKeys st1 @ [key]\<rparr>
                      else st1)
           in sync_loop enContent langContent keys st2)
      | Inr False \<Rightarrow>
          sync_loop enContent langContent keys
            (st\<lparr>merged := obj_set (merged st) key (en_get enContent key),
                missingKeys := missingKeys st @ [key],
                untranslatedKeys := untranslatedKeys st @ [key]\<rparr>))"

record stats =
  translated :: int
  untranslated :: nat
  missing :: nat
  completion :: rat

definition completion_of :: "int \<Rightarrow> nat \<Rightarrow> rat" where
  "completion_of translatedKeys totalKeys =
     (if totalKeys > 0
      then fl (of_int (js_round (fl (fl (of_int translatedKeys / of_nat totalKeys) * 1000))) / 10)
      else 100)"

text \<open>
  \<^verbatim>\<open>syncLanguage(lang, enContent)\<close>, given the state of the language's file. The
  result is the object written back to the file and the statistics returned, or the
  exception that ends the call.
\<close>

definition syncLanguage :: "source \<Rightarrow> lang_file \<Rightarrow> js_error + (jsstring \<times> jsval) list \<times> stats" where
  "syncLanguage enContent file =
     (let langContent = read_lang file;
          enKeys = sort (map fst enContent)
      in case sync_loop enContent langContent enKeys
                \<lparr>merged = [], untranslatedKeys = [], missingKeys = []\<rparr> of
           Inl e \<Rightarrow> Inl e
         | Inr st \<Rightarrow>
             (let totalKeys = length enKeys;
                  translatedKeys = int totalKeys - int (length (untranslatedKeys st))
              in Inr (merged st,
                      \<lparr>translated = translatedKeys,
                       untranslated = length (untranslatedKeys st),
                       missing = length (missingKeys st),
                       completion = completion_of translatedKeys totalKeys\<rparr>)))"

section \<open>Regular expressions\<close>

text \<open>
  The fragment of the regular expressions that the validator uses: a sequence of
  character classes, each taken once, optionally (\<^verbatim>\<open>?\<close>) or at least \<open>n\<close> times
  (\<^verbatim>\<open>*\<close>, \<^verbatim>\<open>+\<close>, \<^verbatim>\<open>{n,}\<close>). A class is a list of ranges of code units, or the
  complement of one (\<^verbatim>\<open>[^...]\<close>); a literal character is a class of one member.
\<close>

datatype cclass = Chars "(jschar \<times> jschar) list" | NotChars "(jschar \<times> jschar) list"

datatype quant = Once | Opt | AtLeast nat

type_synonym regex = "(cclass \<times> quant) list"

definition lit :: "string \<Rightarrow> regex" where
  "lit s = map (\<lambda>c. (Chars [(of_char c, of_char c)], Once)) s"

definition in_ranges :: "jschar \<Rightarrow> (jschar \<times> jschar) list \<Rightarrow> bool" where
  "in_ranges c rs = list_ex (\<lambda>(lo, hi). lo \<le> c \<and> c \<le> hi) rs"

text \<open>
  Under the flag \<^verbatim>\<open>i\<close> (and without \<^verbatim>\<open>u\<close>) a code unit is compared through
  \<^verbatim>\<open>Canonicalize\<close>: its upper case, unless that is more than one code unit, or the code
  unit is not ASCII and its upper case is. So the canonical form of an ASCII code unit is
  its ASCII upper case, and the canonical form of any other code unit is not ASCII. The
  patterns of the validator name no cased code unit outside ASCII, so the canonical form
  of the code units from \<open>0x80\<close> on is taken to be the code unit itself.
\<close>

definition to_upper :: "jschar \<Rightarrow> jschar" where
  "to_upper c = (if 0x61 \<le> c \<and> c \<le> 0x7A then c - 0x20 else c)"

definition to_lower :: "jschar \<Rightarrow> jschar" where
  "to_lower c = (if 0x41 \<le> c \<and> c \<le> 0x5A then c + 0x20 else c)"

definition canonicalize :: "bool \<Rightarrow> jschar \<Rightarrow> jschar" where
  "canonicalize ignoreCase c = (if ignoreCase then to_upper c else c)"

text \<open>
  A code unit is in a class when the class has a member with the same canonical form;
  the members with the canonical form of \<open>c\<close> are \<open>c\<close>, its upper and its lower case.
\<close>

definition in_class :: "bool \<Rightarrow> (jschar \<times> jschar) list \<Rightarrow> jschar \<Rightarrow> bool" where
  "in_class ignoreCase rs c =
     (in_ranges c rs \<or> (ignoreCase \<and> (in_ranges (to_upper c) rs \<or> in_ranges (to_lower c) rs)))"

fun class_match :: "bool \<Rightarrow> cclass \<Rightarrow> jschar \<Rightarrow> bool" where
  "class_match ignoreCase (Chars rs) c = in_class ignoreCase rs c"
| "class_match ignoreCase (NotChars rs) c = (\<not> in_class ignoreCase rs c)"

text \<open>
  The backtracking matcher at the start of \<open>s\<close>: the rest of \<open>s\<close> after the first match
  in the order of the search (a repetition is greedy: one more iteration is tried before
  the rest of the pattern), \<open>None\<close> when there is none.
\<close>

fun rmatch :: "bool \<Rightarrow> regex \<Rightarrow> jsstring \<Rightarrow> jsstring option" where
  "rmatch ic [] s = Some s"
| "rmatch ic ((cls, Once) # r) s =
     (case s of
        [] \<Rightarrow> None
      | c # cs \<Rightarrow> if class_match ic cls c then rmatch ic r cs else None)"
| "rmatch ic ((cls, Opt) # r) s =
     (case (case s of
              [] \<Rightarrow> None
            | c # cs \<Rightarrow> if class_match ic cls c then rmatch ic r cs else None) of
        Some rest \<Rightarrow> Some rest
      | None \<Rightarrow> rmatch ic r s)"
| "rmatch ic ((cls, AtLeast (Suc n)) # r) s =
     (case s of
        [] \<Rightarrow> None
      | c # cs \<Rightarrow> if class_match ic cls c then rmatch ic ((cls, AtLeast n) # r) cs else None)"
| "rmatch ic ((cls, AtLeast 0) # r) s =
     (case (case s of
              [] \<Rightarrow> None
            | c # cs \<Rightarrow> if class_match ic cls c then rmatch ic ((cls, AtLeast 0) # r) cs else None) of
        Some rest \<Rightarrow> Some rest
      | None \<Rightarrow> rmatch ic r s)"

fun tails :: "'a list \<Rightarrow> 'a list list" where
  "tails [] = [[]]"
| "tails (x # xs) = (x # xs) # tails xs"

text \<open>\<^verbatim>\<open>re.test(s)\<close> for a pattern without the flag \<^verbatim>\<open>g\<close>: is there a match at some index.\<close>

definition re_test :: "bool \<Rightarrow> regex \<Rightarrow> jsstring \<Rightarrow> bool" where
  "re_test ic r s = list_ex (\<lambda>t. rmatch ic r t \<noteq> None) (tails s)"

text \<open>
  \<^verbatim>\<open>s.match(re)\<close> for a pattern with the flag \<^verbatim>\<open>g\<close>: the matches from left to right,
  each search starting where the last match ended (one code unit further after an empty
  match). Where JavaScript returns \<^verbatim>\<open>null\<close> for no match, this is the empty list, as
  \<^verbatim>\<open>?? []\<close> makes it.
\<close>

fun match_all :: "bool \<Rightarrow> regex \<Rightarrow> jsstring \<Rightarrow> jsstring list" where
  "match_all ic r s =
     (case rmatch ic r s of
        None \<Rightarrow> (case s of [] \<Rightarrow> [] | c # cs \<Rightarrow> match_all ic r cs)
      | Some rest \<Rightarrow>
          if length rest < length s
          then take (length s - length rest) s # match_all ic r rest
          else [] # (case s of [] \<Rightarrow> [] | c # cs \<Rightarrow> match_all ic r cs))"

declare match_all.simps [simp del]

text \<open>
  \<^verbatim>\<open>\s\<close>, and what \<^verbatim>\<open>trim\<close> strips: the white space and the line terminators of
  ECMAScript.
\<close>

definition whitespace :: "(jschar \<times> jschar) list" where
  "whitespace =
     [(0x09, 0x0D), (0x20, 0x20), (0xA0, 0xA0), (0x1680, 0x1680), (0x2000, 0x200A),
      (0x2028, 0x2029), (0x202F, 0x202F), (0x205F, 0x205F), (0x3000, 0x3000), (0xFEFF, 0xFEFF)]"

definition trim :: "jsstring \<Rightarrow> jsstring" where
  "trim s = rev (dropWhile (\<lambda>c. in_ranges c whitespace) (rev (dropWhile (\<lambda>c. in_ranges c whitespace) s)))"

text \<open>\<^verbatim>\<open>s.replace(pat, rep)\<close> for a string \<open>pat\<close>: the first occurrence is replaced.\<close>

fun replace_first :: "jsstring \<Rightarrow> jsstring \<Rightarrow> jsstring \<Rightarrow> jsstring" where
  "replace_first pat rep [] = (if pat = [] then rep else [])"
| "replace_first pat rep (c # cs) =
     (if take (length pat) (c # cs) = pat then rep @ drop (length pat) (c # cs)
      else c # replace_first pat rep cs)"

section \<open>The validator (validate.js)\<close>

definition MAX_LENGTH :: nat where
  "MAX_LENGTH = 2000"

definition MAX_LENGTH_RATIO :: nat where
  "MAX_LENGTH_RATIO = 10"

text \<open>Each entry: the flag \<^verbatim>\<open>i\<close>, the pattern, the label.\<close>

definition BLOCKED_PATTERNS :: "(bool \<times> regex \<times> string) list" where
  "BLOCKED_PATTERNS =
     [(True, lit ''<script'', ''script tag''),
      (True, lit ''</script'', ''closing script tag''),
      (True, lit ''javascript'' @ [(Chars whitespace, AtLeast 0)] @ lit '':'', ''javascript: URI''),
      (True, lit ''on'' @ [(Chars [(0x61, 0x7A)], AtLeast 2), (Chars whitespace, AtLeast 0)] @ lit ''='',
         ''inline event handler (onX=)''),
      (True, lit ''<iframe'', ''iframe tag''),
      (True, lit ''<img'' @ [(NotChars [(0x3E, 0x3E)], AtLeast 1)] @ lit ''onerror'',
         ''img onerror injection''),
      (True, lit ''data:'' @ [(NotChars [(0x2C, 0x2C)], AtLeast 0)] @ lit ''base64'',
         ''base64 data URI''),
      (True, lit ''&#'' @ [(Chars [(0x78, 0x78)], Opt), (Chars [(0x30, 0x39), (0x61, 0x66)], AtLeast 1)]
               @ lit '';'',
         ''HTML numeric entity (potential obfuscation)''),
      (False, [(Chars [(0x202E, 0x202E)], Once)], ''right-to-left override character (U+202E)'')]"

text \<open>\<^verbatim>\<open>/\{\{[^}]+\}\}/g\<close>\<close>

definition placeholder_re :: regex where
  "placeholder_re = lit ''{{'' @ [(NotChars [(0x7D, 0x7D)], AtLeast 1)] @ lit ''}}''"

definition extractPlaceholders :: "jsstring \<Rightarrow> jsstring list" where
  "extractPlaceholders str = sort (match_all False placeholder_re str)"

text \<open>\<^verbatim>\<open>/[\x00-\x08\x0b\x0c\x0e-\x1f\x7f]/\<close>\<close>

definition control_re :: regex where
  "control_re = [(Chars [(0x00, 0x08), (0x0B, 0x0B), (0x0C, 0x0C), (0x0E, 0x1F), (0x7F, 0x7F)], Once)]"

definition hasControlChars :: "jsstring \<Rightarrow> bool" where
  "hasControlChars str = re_test False control_re str"

text \<open>\<^verbatim>\<open>/^[a-z]{2,5}$/\<close>: the whole string is two to five lower-case letters.\<close>

definition is_lang_code :: "jsstring \<Rightarrow> bool" where
  "is_lang_code s = (2 \<le> length s \<and> length s \<le> 5 \<and> list_all (\<lambda>c. 0x61 \<le> c \<and> c \<le> 0x7A) s)"

text \<open>
  The messages, one constructor for each template string of the validator, with the
  values the template interpolates:
  \<^item> \<open>SourceOfTruth\<close>: ``en.json is the source of truth -- do not submit it as a translation.''
  \<^item> \<open>AutoGenerated\<close>: ``report.json is auto-generated -- do not submit it in a PR.''
  \<^item> \<open>BadLanguageCode label\<close>: ``File name "label" is not a valid language code ...''
  \<^item> \<open>InvalidJSON msg\<close>: ``Invalid JSON: msg''
  \<^item> \<open>RootNotObject\<close>: ``Root value must be a JSON object.''
  \<^item> \<open>MissingKey key\<close>: ``Missing key: "key"''
  \<^item> \<open>UnknownKey key\<close>: ``Unknown key not in en.json: "key"''
  \<^item> \<open>NotAString key t\<close>: ``[key] Value must be a string, got t.''
  \<^item> \<open>EmptyValue key\<close>: ``[key] Value is empty (English is not).''
  \<^item> \<open>BlockedContent key patLabel\<close>: ``[key] Contains blocked content: patLabel.''
  \<^item> \<open>ControlChars key\<close>: ``[key] Contains non-printable control characters.''
  \<^item> \<open>MissingPlaceholders key ps\<close>: ``[key] Missing template placeholder(s): '' and \<open>ps\<close> joined
  \<^item> \<open>ExtraPlaceholders key ps\<close>: ``[key] Extra template placeholder(s) not in English: '' and \<open>ps\<close> joined
  \<^item> \<open>ExceedsCap key n\<close>: ``[key] Value exceeds hard cap of 2000 characters (got n).''
  \<^item> \<open>Suspicious key n m\<close>: ``[key] Value is r times longer than English -- looks suspicious.'',
    \<open>r\<close> being \<open>n / m\<close> rounded, \<open>n\<close> the length of the value and \<open>m\<close> of the English one
\<close>

datatype message =
    SourceOfTruth
  | AutoGenerated
  | BadLanguageCode jsstring
  | InvalidJSON jsstring
  | RootNotObject
  | MissingKey jsstring
  | UnknownKey jsstring
  | NotAString jsstring js_type
  | EmptyValue jsstring
  | BlockedContent jsstring string
  | ControlChars jsstring
  | MissingPlaceholders jsstring "jsstring list"
  | ExtraPlaceholders jsstring "jsstring list"
  | ExceedsCap jsstring nat
  | Suspicious jsstring nat nat

text \<open>
  The checks on one string value (steps 5b to 10 of the loop body): the errors and the
  warnings they push, in order.
\<close>

definition check_value :: "jsstring \<Rightarrow> jsstring \<Rightarrow> jsstring \<Rightarrow> message list \<times> message list" where
  "check_value key enValue value =
     (let empty_w = (if trim value = [] \<and> trim enValue \<noteq> [] then [EmptyValue key] else []);
          blocked_e = map (\<lambda>(ic, re, patLabel). BlockedContent key patLabel)
                        (filter (\<lambda>(ic, re, patLabel). re_test ic re value) BLOCKED_PATTERNS);
          control_e = (if hasControlChars value then [ControlChars key] else []);
          enPlaceholders = extractPlaceholders enValue;
          langPlaceholders = extractPlaceholders value;
          missingPh = filter (\<lambda>p. p \<notin> set langPlaceholders) enPlaceholders;
          extraPh = filter (\<lambda>p. p \<notin> set enPlaceholders) langPlaceholders;
          missing_e = (if missingPh \<noteq> [] then [MissingPlaceholders key missingPh] else []);
          extra_e = (if extraPh \<noteq> [] then [ExtraPlaceholders key extraPh] else []);
          length_e = (if length value > MAX_LENGTH then [ExceedsCap key (length value)] else []);
          length_w = (if \<not> length value > MAX_LENGTH \<and> length enValue > 0
                         \<and> length value > length enValue * MAX_LENGTH_RATIO
                      then [Suspicious key (length value) (length enValue)] else [])
      in (blocked_e @ control_e @ missing_e @ extra_e @ length_e, empty_w @ length_w))"

text \<open>
  The loop over \<^verbatim>\<open>Object.entries(content)\<close>. \<^verbatim>\<open>enKeys.has(key)\<close> holds when the
  source has the key, and then \<^verbatim>\<open>enContent[key]\<close> is its value.
\<close>

fun check_entries :: "source \<Rightarrow> (jsstring \<times> jsval) list \<Rightarrow> message list \<times> message list" where
  "check_entries enContent [] = ([], [])"
| "check_entries enContent ((key, value) # entries) =
     (let (es, ws) = check_entries enContent entries
      in case map_of enContent key of
           None \<Rightarrow> (es, ws)
         | Some enValue \<Rightarrow>
             (case value of
                JStr v \<Rightarrow> (let (e, w) = check_value key enValue v in (e @ es, w @ ws))
              | _ \<Rightarrow> (NotAString key (typeof value) # es, ws)))"

fun is_array :: "jsval \<Rightarrow> bool" where
  "is_array (JArr xs) = True"
| "is_array v = False"

fun entries_of :: "jsval \<Rightarrow> (jsstring \<times> jsval) list" where
  "entries_of (JObj ps) = ps"
| "entries_of v = []"

text \<open>
  \<^verbatim>\<open>validate(file, enContent)\<close>: \<open>label\<close> is the base name of \<^verbatim>\<open>file\<close>, \<open>langFile\<close>
  what reading and parsing it gives. The result is the pair of \<^verbatim>\<open>errors\<close> and
  \<^verbatim>\<open>warnings\<close>. \<^verbatim>\<open>new Set(Object.keys(o))\<close> lists the keys of \<open>o\<close> in their order;
  they are distinct already.
\<close>

definition validate :: "jsstring \<Rightarrow> source \<Rightarrow> read_result \<Rightarrow> message list \<times> message list" where
  "validate label enContent langFile =
     (if label = js ''en.json'' then ([SourceOfTruth], [])
      else if label = js ''report.json'' then ([AutoGenerated], [])
      else
        let langCode = replace_first (js ''.json'') [] label;
            code_e = (if \<not> is_lang_code langCode then [BadLanguageCode label] else [])
        in case langFile of
             Failed msg \<Rightarrow> (code_e @ [InvalidJSON msg], [])
           | Content content \<Rightarrow>
               if typeof content \<noteq> TObject \<or> is_array content \<or> content = JNull
               then (code_e @ [RootNotObject], [])
               else
                 let enKeys = remdups (map fst enContent);
                     langKeys = remdups (map fst (entries_of content));
                     missing_e = map MissingKey (filter (\<lambda>key. key \<notin> set langKeys) enKeys);
                     extra_e = map UnknownKey (filter (\<lambda>key. key \<notin> set enKeys) langKeys);
                     (es, ws) = check_entries enContent (entries_of content)
                 in (code_e @ missing_e @ extra_e @ es, ws))"

section \<open>Notions used in the statements\<close>

text \<open>
  \<open>owns v key\<close>: \<^verbatim>\<open>Object.hasOwn(v, key)\<close> returns true. \<open>chosen\<close> is the value the loop of
  the synchronizer stores under a key, \<open>still_english\<close> whether it lists the key as
  untranslated, and \<open>sync_stats\<close> the statistics that follow for a list of keys.
\<close>

definition owns :: "jsval \<Rightarrow> jsstring \<Rightarrow> bool" where
  "owns v key = (has_own v key = Inr True)"

definition chosen :: "source \<Rightarrow> jsval \<Rightarrow> jsstring \<Rightarrow> jsval" where
  "chosen enContent langContent key =
     (if owns langContent key then get_prop langContent key else en_get enContent key)"

definition still_english :: "source \<Rightarrow> jsval \<Rightarrow> jsstring \<Rightarrow> bool" where
  "still_english enContent langContent key =
     (if owns langContent key then strict_eq (get_prop langContent key) (en_get enContent key)
      else True)"

definition sync_stats :: "source \<Rightarrow> jsval \<Rightarrow> jsstring list \<Rightarrow> stats" where
  "sync_stats enContent langContent enKeys =
     \<lparr>translated = int (length enKeys) - int (length (filter (still_english enContent langContent) enKeys)),
      untranslated = length (filter (still_english enContent langContent) enKeys),
      missing = length (filter (\<lambda>k. \<not> owns langContent k) enKeys),
      completion = completion_of
        (int (length enKeys) - int (length (filter (still_english enContent langContent) enKeys)))
        (length enKeys)\<rparr>"

text \<open>
  The control characters of ASCII are the code units up to \<open>0x1F\<close> and \<open>0x7F\<close>; Unicode
  (general category Cc) adds the code units \<open>0x80\<close> to \<open>0x9F\<close>.
\<close>

definition ascii_control :: "jschar \<Rightarrow> bool" where
  "ascii_control c = (c \<le> 0x1F \<or> c = 0x7F)"

definition unicode_control :: "jschar \<Rightarrow> bool" where
  "unicode_control c = (c \<le> 0x1F \<or> (0x7F \<le> c \<and> c \<le> 0x9F))"

text \<open>
  Two strings are case variants of each other when they differ only in the case of
  ASCII letters. A class is blind to case when it does not tell such code units apart.
\<close>

definition case_variant :: "jsstring \<Rightarrow> jsstring \<Rightarrow> bool" where
  "case_variant v w = (map to_upper v = map to_upper w)"

definition case_blind :: "bool \<Rightarrow> cclass \<Rightarrow> bool" where
  "case_blind ic cls = (\<forall>c d. to_upper c = to_upper d \<longrightarrow> class_match ic cls c = class_match ic cls d)"

text \<open>The errors of the blocked-content scan.\<close>

fun is_blocked :: "message \<Rightarrow> bool" where
  "is_blocked (BlockedContent key patLabel) = True"
| "is_blocked m = False"

text \<open>
  The placeholders of a string. A placeholder is \<^verbatim>\<open>{{\<close>, a body that is not empty and
  has no \<^verbatim>\<open>}\<close>, and \<^verbatim>\<open>}}\<close>. The body may hold \<^verbatim>\<open>{\<close>: a \<^verbatim>\<open>{{\<close> that no \<^verbatim>\<open>}\<close> follows
  is open, and what comes after it is its body and no placeholder of its own.
  \<open>open_braces pre\<close> says that an open \<^verbatim>\<open>{{\<close> starts in \<open>pre\<close> (its second brace may be the
  brace that follows \<open>pre\<close>). \<open>placeholder_in p s\<close>: the placeholder \<open>p\<close> stands in \<open>s\<close>
  after a part \<open>pre\<close> of \<open>s\<close> in which no \<^verbatim>\<open>{{\<close> is open. So \<^verbatim>\<open>{{a}} has {{b}}\<close> has the
  placeholders \<^verbatim>\<open>{{a}}\<close> and \<^verbatim>\<open>{{b}}\<close>, and \<^verbatim>\<open>{{x{{a}}\<close> has the one placeholder
  \<^verbatim>\<open>{{x{{a}}\<close>. \<open>splits s\<close> lists the ways to cut \<open>s\<close> in two.
\<close>

fun splits :: "'a list \<Rightarrow> ('a list \<times> 'a list) list" where
  "splits [] = [([], [])]"
| "splits (x # xs) = ([], x # xs) # map (\<lambda>(pre, rest). (x # pre, rest)) (splits xs)"

definition starts_with :: "jsstring \<Rightarrow> jsstring \<Rightarrow> bool" where
  "starts_with s p \<longleftrightarrow> take (length p) s = p"

definition body_of :: "jsstring \<Rightarrow> jsstring" where
  "body_of p = take (length p - 4) (drop 2 p)"

definition is_placeholder :: "jsstring \<Rightarrow> bool" where
  "is_placeholder p \<longleftrightarrow>
     p = js ''{{'' @ body_of p @ js ''}}'' \<and> body_of p \<noteq> [] \<and> 0x7D \<notin> set (body_of p)"

definition open_braces :: "jsstring \<Rightarrow> bool" where
  "open_braces pre \<longleftrightarrow>
     list_ex (\<lambda>(u, v). starts_with v (js ''{{'') \<and> 0x7D \<notin> set v) (splits (pre @ js ''{''))"

definition placeholder_in :: "jsstring \<Rightarrow> jsstring \<Rightarrow> bool" where
  "placeholder_in p s \<longleftrightarrow>
     is_placeholder p
     \<and> list_ex (\<lambda>(pre, rest). starts_with rest p \<and> \<not> open_braces pre) (splits s)"

text \<open>
  A value as a translator writes it: pieces of text without \<^verbatim>\<open>{\<close>, and placeholders
  between them. \<open>render\<close> is the string, \<open>holes\<close> the placeholders written.
\<close>

datatype piece = Text jsstring | Hole jsstring

fun render :: "piece list \<Rightarrow> jsstring" where
  "render [] = []"
| "render (Text t # ps) = t @ render ps"
| "render (Hole body # ps) = js ''{{'' @ body @ js ''}}'' @ render ps"

fun holes :: "piece list \<Rightarrow> jsstring list" where
  "holes [] = []"
| "holes (Text t # ps) = holes ps"
| "holes (Hole body # ps) = (js ''{{'' @ body @ js ''}}'') # holes ps"

fun well_formed :: "piece \<Rightarrow> bool" where
  "well_formed (Text t) \<longleftrightarrow> 0x7B \<notin> set t"
| "well_formed (Hole body) \<longleftrightarrow> body \<noteq> [] \<and> 0x7D \<notin> set body"

section \<open>The synchronizer: what the loop computes\<close>

lemma has_own_total:
  "v \<noteq> JNull \<Longrightarrow> v \<noteq> JUndefined \<Longrightarrow> has_own v key = Inr (owns v key)"
  by (cases v) (simp_all add: owns_def)

lemma sync_loop_result:
  assumes "langContent \<noteq> JNull" and "langContent \<noteq> JUndefined"
  shows "sync_loop enContent langContent keys st =
           Inr \<lparr>merged = foldl (\<lambda>acc k. obj_set acc k (chosen enContent langContent k)) (merged st) keys,
                untranslatedKeys = untranslatedKeys st @ filter (still_english enContent langContent) keys,
                missingKeys = missingKeys st @ filter (\<lambda>k. \<not> owns langContent k) keys\<rparr>"
proof (induction keys arbitrary: st)
  case Nil
  show ?case by simp
next
  case (Cons key keys)
  show ?case
  proof (cases "owns langContent key")
    case True
    then show ?thesis
      using assms by (simp add: has_own_total Cons.IH chosen_def still_english_def Let_def)
  next
    case False
    then show ?thesis
      using assms by (simp add: has_own_total Cons.IH chosen_def still_english_def)
  qed
qed

lemma sync_loop_throws:
  assumes "langContent = JNull \<or> langContent = JUndefined"
  shows "sync_loop enContent langContent (key # keys) st = Inl TypeError"
  using assms by auto

lemma keys_obj_set:
  "fst ` set (obj_set m k v) = (if k = js ''__proto__'' then fst ` set m else insert k (fst ` set m))"
  by (simp add: obj_set_def dom_update)

lemma map_of_obj_set:
  "map_of (obj_set m k v) = (if k = js ''__proto__'' then map_of m else (map_of m)(k \<mapsto> v))"
  by (simp add: obj_set_def update_conv')

lemma keys_foldl_obj_set:
  "fst ` set (foldl (\<lambda>acc k. obj_set acc k (f k)) m keys) =
     fst ` set m \<union> (set keys - {js ''__proto__''})"
  by (induction keys arbitrary: m) (auto simp: keys_obj_set)

lemma map_of_foldl_obj_set:
  "map_of (foldl (\<lambda>acc k. obj_set acc k (f k)) m keys) k =
     (if k \<in> set keys - {js ''__proto__''} then Some (f k) else map_of m k)"
  by (induction keys arbitrary: m) (auto simp: map_of_obj_set)

text \<open>
  The synchronizer returns for every candidate but \<^verbatim>\<open>null\<close> (and \<^verbatim>\<open>undefined\<close>, which
  no file parses to): a missing file, a file that does not parse, and a file that
  parses to an object, an array, a string, a number or a boolean.
\<close>

lemma syncLanguage_returns:
  assumes "read_lang langFile \<noteq> JNull" and "read_lang langFile \<noteq> JUndefined"
  shows "syncLanguage enContent langFile =
           Inr (foldl (\<lambda>acc k. obj_set acc k (chosen enContent (read_lang langFile) k)) []
                  (sort (map fst enContent)),
                sync_stats enContent (read_lang langFile) (sort (map fst enContent)))"
  using assms by (simp add: syncLanguage_def sync_loop_result sync_stats_def Let_def)

lemma syncLanguage_throws:
  assumes "read_lang langFile = JNull \<or> read_lang langFile = JUndefined" and "enContent \<noteq> []"
  shows "syncLanguage enContent langFile = Inl TypeError"
proof -
  from assms(2) have "sort (map fst enContent) \<noteq> []"
    by (metis length_sort length_map length_0_conv)
  then obtain key keys where "sort (map fst enContent) = key # keys"
    by (cases "sort (map fst enContent)") auto
  with assms(1) show ?thesis
    by (simp add: syncLanguage_def sync_loop_throws Let_def del: sync_loop.simps)
qed

lemma syncLanguage_empty_source:
  "syncLanguage [] langFile =
     Inr ([], \<lparr>translated = 0, untranslated = 0, missing = 0, completion = 100\<rparr>)"
  by (simp add: syncLanguage_def completion_of_def)

lemma syncLanguage_cases:
  assumes "syncLanguage enContent langFile = Inr (m, st)"
  shows "enContent = [] \<and> m = [] \<and> st = \<lparr>translated = 0, untranslated = 0, missing = 0, completion = 100\<rparr>
       \<or> read_lang langFile \<noteq> JNull \<and> read_lang langFile \<noteq> JUndefined
         \<and> m = foldl (\<lambda>acc k. obj_set acc k (chosen enContent (read_lang langFile) k)) []
                  (sort (map fst enContent))
         \<and> st = sync_stats enContent (read_lang langFile) (sort (map fst enContent))"
proof (cases "enContent = []")
  case True
  with assms show ?thesis by (auto simp: syncLanguage_empty_source)
next
  case False
  have ok: "read_lang langFile \<noteq> JNull" "read_lang langFile \<noteq> JUndefined"
    using assms False syncLanguage_throws [of langFile enContent] by auto
  with assms show ?thesis by (simp add: syncLanguage_returns)
qed

text \<open>
  Where the source has no key \<^verbatim>\<open>__proto__\<close>, the merged object has the keys of the
  source, whatever the candidate was.
\<close>

lemma merged_keys:
  assumes "js ''__proto__'' \<notin> fst ` set enContent"
    and "syncLanguage enContent langFile = Inr (m, st)"
  shows "fst ` set m = fst ` set enContent"
proof -
  have "fst ` set (foldl (\<lambda>acc k. obj_set acc k (chosen enContent (read_lang langFile) k)) []
                     (sort (map fst enContent))) = fst ` set enContent"
    using assms(1) by (simp add: keys_foldl_obj_set)
  with syncLanguage_cases [OF assms(2)] show ?thesis by auto
qed

text \<open>
  A key of the source that the candidate does not have, \<^verbatim>\<open>__proto__\<close> apart, is
  backfilled with the English value and listed as missing and as untranslated; the
  counts returned are the lengths of those lists.
\<close>

lemma missing_key_backfilled:
  assumes "syncLanguage enContent langFile = Inr (m, st)"
    and "key \<in> fst ` set enContent" and "\<not> owns (read_lang langFile) key"
    and "key \<noteq> js ''__proto__''"
  shows "map_of m key = Some (en_get enContent key)"
    and "key \<in> set (filter (\<lambda>k. \<not> owns (read_lang langFile) k) (sort (map fst enContent)))"
    and "key \<in> set (filter (still_english enContent (read_lang langFile)) (sort (map fst enContent)))"
    and "missing st = length (filter (\<lambda>k. \<not> owns (read_lang langFile) k) (sort (map fst enContent)))"
    and "untranslated st =
           length (filter (still_english enContent (read_lang langFile)) (sort (map fst enContent)))"
proof -
  from assms(2) have ne: "enContent \<noteq> []" by auto
  with syncLanguage_cases [OF assms(1)]
  have m: "m = foldl (\<lambda>acc k. obj_set acc k (chosen enContent (read_lang langFile) k)) []
                 (sort (map fst enContent))"
    and st: "st = sync_stats enContent (read_lang langFile) (sort (map fst enContent))"
    by simp_all
  from assms(2,4) have "key \<in> set (sort (map fst enContent)) - {js ''__proto__''}" by simp
  then show "map_of m key = Some (en_get enContent key)"
    unfolding m using assms(3) by (simp add: map_of_foldl_obj_set chosen_def)
  show "key \<in> set (filter (\<lambda>k. \<not> owns (read_lang langFile) k) (sort (map fst enContent)))"
    using assms(2,3) by simp
  show "key \<in> set (filter (still_english enContent (read_lang langFile)) (sort (map fst enContent)))"
    using assms(2,3) by (simp add: still_english_def)
  show "missing st = length (filter (\<lambda>k. \<not> owns (read_lang langFile) k) (sort (map fst enContent)))"
    by (simp add: st sync_stats_def)
  show "untranslated st =
          length (filter (still_english enContent (read_lang langFile)) (sort (map fst enContent)))"
    by (simp add: st sync_stats_def)
qed

text \<open>
  C1, the merged object has the keys of the source for every source and candidate. The
  code loses the key \<^verbatim>\<open>__proto__\<close>: for the source \<^verbatim>\<open>{"__proto__": "x"}\<close> and no
  language file the merged object is \<^verbatim>\<open>{}\<close>. (The script's header says that it adds
  any missing keys and keeps the key structure of all languages consistent.)
\<close>

theorem proto_key_lost:
  "syncLanguage [(js ''__proto__'', js ''x'')] Absent =
     Inr ([], \<lparr>translated = 0, untranslated = 1, missing = 1, completion = 0\<rparr>)"
  by code_simp

text \<open>
  C2, the synchronizer never fails and treats a malformed candidate as empty. For a
  language file holding \<^verbatim>\<open>null\<close> the call \<^verbatim>\<open>Object.hasOwn(langContent, key)\<close> throws a
  TypeError, which nothing catches.
\<close>

theorem null_candidate_throws:
  "syncLanguage [(js ''a'', js ''x'')] (Present (Content JNull)) = Inl TypeError"
  by (simp add: syncLanguage_def js_def)

text \<open>
  An array or a string is not treated as an empty mapping either: its indices and
  \<^verbatim>\<open>length\<close> are own properties, and their values are kept.
\<close>

lemma array_candidate_not_empty:
  "syncLanguage [(js ''length'', js ''Length'')] (Present (Content (JArr []))) =
     Inr ([(js ''length'', JNum 0)],
          \<lparr>translated = 1, untranslated = 0, missing = 0, completion = 100\<rparr>)"
  by code_simp

text \<open>
  C3, a key of the source that the candidate lacks is mapped to the English value in the
  merged object and counted as missing and untranslated. The key \<^verbatim>\<open>__proto__\<close> is
  counted but not stored: for the source \<^verbatim>\<open>{"__proto__": "x", "a": "y"}\<close> and the
  candidate \<^verbatim>\<open>{"a": "z"}\<close> the merged object is \<^verbatim>\<open>{"a": "z"}\<close>.
\<close>

theorem proto_key_not_backfilled:
  "syncLanguage [(js ''__proto__'', js ''x''), (js ''a'', js ''y'')]
       (Present (Content (JObj [(js ''a'', JStr (js ''z''))]))) =
     Inr ([(js ''a'', JStr (js ''z''))],
          \<lparr>translated = 1, untranslated = 1, missing = 1, completion = 50\<rparr>)"
  by code_simp

subsection \<open>Running the synchronizer on its own output\<close>

lemma strict_eq_en_get: "strict_eq (en_get enContent k) (en_get enContent k)"
  by (simp add: en_get_def split: option.split)

lemma rerun_agrees:
  assumes m: "m = foldl (\<lambda>acc k. obj_set acc k (chosen enContent langContent k)) [] keys"
    and k: "k \<in> set keys" and p: "js ''__proto__'' \<notin> set keys"
  shows "owns (JObj m) k"
    and "chosen enContent (JObj m) k = chosen enContent langContent k"
    and "still_english enContent (JObj m) k = still_english enContent langContent k"
proof -
  from k p have "k \<in> set keys - {js ''__proto__''}" by auto
  then have look: "map_of m k = Some (chosen enContent langContent k)"
    unfolding m by (simp add: map_of_foldl_obj_set)
  then show o: "owns (JObj m) k" by (simp add: owns_def)
  from look o show "chosen enContent (JObj m) k = chosen enContent langContent k"
    by (simp add: chosen_def)
  from look o show "still_english enContent (JObj m) k = still_english enContent langContent k"
    by (simp add: still_english_def chosen_def strict_eq_en_get)
qed

text \<open>
  C5, as amended: for a source without the key \<^verbatim>\<open>__proto__\<close>, when a run of the
  synchronizer returns the merged object \<open>m\<close> and the statistics \<open>st\<close>, a second run on
  the file holding \<open>m\<close> returns \<open>m\<close> again and the same \<open>translated\<close>, \<open>untranslated\<close>
  and \<open>completion\<close>, while its \<open>missing\<close> is 0: after the first run no key is absent.
\<close>

theorem second_run:
  assumes p: "js ''__proto__'' \<notin> fst ` set enContent"
    and run: "syncLanguage enContent langFile = Inr (m, st)"
  shows "syncLanguage enContent (Present (Content (JObj m))) = Inr (m, st\<lparr>missing := 0\<rparr>)"
proof (cases "enContent = []")
  case True
  with run show ?thesis by (auto simp: syncLanguage_empty_source)
next
  case False
  define lc where "lc = read_lang langFile"
  define keys where "keys = sort (map fst enContent)"
  from syncLanguage_cases [OF run] False
  have m: "m = foldl (\<lambda>acc k. obj_set acc k (chosen enContent lc k)) [] keys"
    and st: "st = sync_stats enContent lc keys"
    by (simp_all add: lc_def keys_def)
  have pk: "js ''__proto__'' \<notin> set keys"
    using p by (simp add: keys_def)
  note again = rerun_agrees [OF m _ pk]
  have "foldl (\<lambda>acc k. obj_set acc k (chosen enContent (JObj m) k)) [] keys =
          foldl (\<lambda>acc k. obj_set acc k (chosen enContent lc k)) [] keys"
    using again(2) by (intro foldl_cong) auto
  then have same_m: "foldl (\<lambda>acc k. obj_set acc k (chosen enContent (JObj m) k)) [] keys = m"
    using m by simp
  have same_u: "filter (still_english enContent (JObj m)) keys = filter (still_english enContent lc) keys"
    using again(3) by (auto intro: filter_cong)
  have none_missing: "filter (\<lambda>k. \<not> owns (JObj m) k) keys = []"
    using again(1) by (auto simp: filter_empty_conv)
  have "syncLanguage enContent (Present (Content (JObj m))) =
          Inr (foldl (\<lambda>acc k. obj_set acc k (chosen enContent (JObj m) k)) [] keys,
               sync_stats enContent (JObj m) keys)"
    by (simp add: syncLanguage_returns keys_def)
  also have "sync_stats enContent (JObj m) keys = st\<lparr>missing := 0\<rparr>"
    by (simp add: st sync_stats_def same_u none_missing)
  finally show ?thesis by (simp add: same_m)
qed

theorem second_run_witness:
  "js ''__proto__'' \<notin> fst ` set [(js ''a'', js ''x''), (js ''b'', js ''y'')]
   \<and> syncLanguage [(js ''a'', js ''x''), (js ''b'', js ''y'')]
         (Present (Content (JObj [(js ''a'', JStr (js ''z''))]))) =
       Inr ([(js ''a'', JStr (js ''z'')), (js ''b'', JStr (js ''y''))],
            \<lparr>translated = 1, untranslated = 1, missing = 1, completion = 50\<rparr>)
   \<and> syncLanguage [(js ''a'', js ''x''), (js ''b'', js ''y'')]
         (Present (Content (JObj [(js ''a'', JStr (js ''z'')), (js ''b'', JStr (js ''y''))]))) =
       Inr ([(js ''a'', JStr (js ''z'')), (js ''b'', JStr (js ''y''))],
            \<lparr>translated = 1, untranslated = 1, missing = 0, completion = 50\<rparr>)"
proof -
  have p: "js ''__proto__'' \<notin> fst ` set [(js ''a'', js ''x''), (js ''b'', js ''y'')]"
    by (simp add: js_def)
  have run: "syncLanguage [(js ''a'', js ''x''), (js ''b'', js ''y'')]
         (Present (Content (JObj [(js ''a'', JStr (js ''z''))]))) =
       Inr ([(js ''a'', JStr (js ''z'')), (js ''b'', JStr (js ''y''))],
            \<lparr>translated = 1, untranslated = 1, missing = 1, completion = 50\<rparr>)"
    by code_simp
  from second_run [OF p run] p run show ?thesis by simp
qed

text \<open>
  C5 as stated fails: the second run does not return the statistics of the first. For the
  source \<^verbatim>\<open>{"a": "x"}\<close> and no language file the first run returns \<open>missing = 1\<close>; the
  second run, on the file the first one wrote, finds the key and returns \<open>missing = 0\<close>.
\<close>

theorem second_run_missing_differs:
  "syncLanguage [(js ''a'', js ''x'')] Absent =
     Inr ([(js ''a'', JStr (js ''x''))],
          \<lparr>translated = 0, untranslated = 1, missing = 1, completion = 0\<rparr>)
   \<and> syncLanguage [(js ''a'', js ''x'')] (Present (Content (JObj [(js ''a'', JStr (js ''x''))]))) =
     Inr ([(js ''a'', JStr (js ''x''))],
          \<lparr>translated = 0, untranslated = 1, missing = 0, completion = 0\<rparr>)
   \<and> syncLanguage [(js ''a'', js ''x'')] (Present (Content (JObj [(js ''a'', JStr (js ''x''))]))) \<noteq>
     Inr ([(js ''a'', JStr (js ''x''))],
          \<lparr>translated = 0, untranslated = 1, missing = 1, completion = 0\<rparr>)"
  by code_simp

section \<open>The completion statistic\<close>

text \<open>
  The rounding error of \<open>fl\<close>: a double has 53 significant bits, so the nearest one is
  within a relative error of \<open>2\<^sup>-\<^sup>5\<^sup>3\<close>.
\<close>

lemma ilog2_le:
  assumes "0 < x"
  shows "2 powi (ilog2 x) \<le> x"
proof -
  obtain p q where pq: "quotient_of x = (p, q)" by (cases "quotient_of x")
  then have q: "0 < q" and x: "x = of_int p / of_int q"
    by (auto dest: quotient_of_denom_pos quotient_of_div)
  from assms q x have p: "0 < p"
    by (simp add: zero_less_divide_iff)
  define d where "d = bitlen p - bitlen q"
  show ?thesis
  proof (cases "2 powi d \<le> x")
    case True
    then show ?thesis by (simp add: ilog2_def pq d_def)
  next
    case False
    then have il: "ilog2 x = d - 1" by (simp add: ilog2_def pq d_def)
    from bitlen_bounds [OF p] have plo: "2 ^ nat (bitlen p - 1) \<le> p" by simp
    from bitlen_bounds [OF q] have qhi: "q < 2 ^ nat (bitlen q)" by simp
    have bp: "0 < bitlen p" and bq: "0 < bitlen q"
      using p q bitlen_nonneg [of p] bitlen_nonneg [of q] bitlen_eq_zero_iff [of p] bitlen_eq_zero_iff [of q]
      by linarith+
    have "d - 1 = (bitlen p - 1) - bitlen q"
      by (simp add: d_def)
    then have "(2::rat) powi (d - 1) = 2 powi ((bitlen p - 1) - bitlen q)"
      by (rule arg_cong)
    also have "\<dots> = 2 powi (bitlen p - 1) / 2 powi (bitlen q)"
      by (rule power_int_diff) simp
    also have "(2::rat) powi (bitlen p - 1) = 2 ^ nat (bitlen p - 1)"
      using bp by (simp add: power_int_def)
    also have "(2::rat) powi (bitlen q) = 2 ^ nat (bitlen q)"
      using bq by (simp add: power_int_def)
    finally have "(2::rat) powi (d - 1) = 2 ^ nat (bitlen p - 1) / 2 ^ nat (bitlen q)" .
    also have "\<dots> \<le> of_int p / of_int q"
    proof -
      have "(2::rat) ^ nat (bitlen p - 1) \<le> of_int p"
        using plo by (metis of_int_le_iff of_int_numeral of_int_power)
      moreover have "(of_int q :: rat) \<le> 2 ^ nat (bitlen q)"
        using qhi by (metis less_imp_le of_int_le_iff of_int_numeral of_int_power)
      ultimately show ?thesis
        using q p by (intro frac_le) auto
    qed
    finally have "2 powi (d - 1) \<le> x" by (simp add: x)
    then show ?thesis by (simp only: il)
  qed
qed


text \<open>So \<open>ilog2 x\<close> is the exponent of \<open>x\<close>, and the mantissa that \<open>fl\<close> rounds has 53 bits.\<close>

lemma ilog2_less:
  assumes "0 < x"
  shows "x < 2 powi (ilog2 x + 1)"
proof -
  obtain p q where pq: "quotient_of x = (p, q)" by (cases "quotient_of x")
  then have q: "0 < q" and x: "x = of_int p / of_int q"
    by (auto dest: quotient_of_denom_pos quotient_of_div)
  from assms q x have p: "0 < p"
    by (simp add: zero_less_divide_iff)
  define d where "d = bitlen p - bitlen q"
  show ?thesis
  proof (cases "2 powi d \<le> x")
    case False
    then show ?thesis by (simp add: ilog2_def pq d_def)
  next
    case True
    then have il: "ilog2 x = d" by (simp add: ilog2_def pq d_def)
    from bitlen_bounds [OF p] have phi: "p < 2 ^ nat (bitlen p)" by simp
    from bitlen_bounds [OF q] have qlo: "2 ^ nat (bitlen q - 1) \<le> q" by simp
    have bp: "0 < bitlen p" and bq: "0 < bitlen q"
      using p q bitlen_nonneg [of p] bitlen_nonneg [of q] bitlen_eq_zero_iff [of p] bitlen_eq_zero_iff [of q]
      by linarith+
    have "of_int p / of_int q < (2::rat) ^ nat (bitlen p) / 2 ^ nat (bitlen q - 1)"
    proof -
      have "of_int p < (2::rat) ^ nat (bitlen p)"
        using phi by (metis of_int_less_iff of_int_numeral of_int_power)
      moreover have "(2::rat) ^ nat (bitlen q - 1) \<le> of_int q"
        using qlo by (metis of_int_le_iff of_int_numeral of_int_power)
      ultimately show ?thesis
        using q p by (intro frac_less) auto
    qed
    also have "(2::rat) ^ nat (bitlen p) = 2 powi (bitlen p)"
      using bp by (simp add: power_int_def)
    also have "(2::rat) ^ nat (bitlen q - 1) = 2 powi (bitlen q - 1)"
      using bq by (simp add: power_int_def)
    also have "(2::rat) powi (bitlen p) / 2 powi (bitlen q - 1) = 2 powi (bitlen p - (bitlen q - 1))"
      by (rule power_int_diff [symmetric]) simp
    also have "bitlen p - (bitlen q - 1) = d + 1"
      by (simp add: d_def)
    finally have "x < 2 powi (d + 1)" by (simp add: x)
    then show ?thesis by (simp only: il)
  qed
qed

lemma round_even_close: "\<bar>of_int (round_even m) - m\<bar> \<le> 1 / 2"
proof -
  have "of_int \<lfloor>m\<rfloor> \<le> m" "m < of_int \<lfloor>m\<rfloor> + 1"
    by linarith+
  then show ?thesis
    by (auto simp: round_even_def Let_def abs_le_iff)
qed

lemma fl_error: "\<bar>fl x - x\<bar> \<le> \<bar>x\<bar> / 2 ^ 53"
proof (cases "x = 0")
  case True
  then show ?thesis by (simp add: fl_def)
next
  case False
  define s :: rat where "s = 2 powi (ilog2 \<bar>x\<bar> - 52)"
  have s: "0 < s" by (simp add: s_def zero_less_power_int)
  have "s * 2 ^ 52 = 2 powi (ilog2 \<bar>x\<bar>)"
    by (simp add: s_def power_int_diff)
  also have "\<dots> \<le> \<bar>x\<bar>"
    using False by (intro ilog2_le) simp
  finally have sx: "s * 2 ^ 52 \<le> \<bar>x\<bar>" .
  have "fl x - x = (of_int (round_even (x / s)) - x / s) * s"
    using False s by (simp add: fl_def s_def Let_def algebra_simps)
  then have "\<bar>fl x - x\<bar> = \<bar>of_int (round_even (x / s)) - x / s\<bar> * s"
    using s by (simp add: abs_mult)
  also have "\<dots> \<le> 1 / 2 * s"
    using round_even_close [of "x / s"] s by (intro mult_right_mono) auto
  also have "\<dots> \<le> \<bar>x\<bar> / 2 ^ 53"
    using sx by simp
  finally show ?thesis .
qed


lemma js_round_bounds: "of_int (js_round x) \<le> x + 1 / 2" "x - 1 / 2 < of_int (js_round x)"
  unfolding js_round_def by linarith+

lemma permille_error:
  fixes t :: int and n :: nat
  assumes t: "0 \<le> t" "t \<le> int n" and n: "0 < n"
  shows "\<bar>fl (fl (of_int t / of_nat n) * 1000) - 1000 * (of_int t / of_nat n)\<bar> \<le> 1 / 2 ^ 42"
proof -
  define q :: rat where "q = of_int t / of_nat n"
  define a where "a = fl q"
  define b where "b = fl (a * 1000)"
  have q0: "0 \<le> q" and q1: "q \<le> 1"
    using t n by (simp_all add: q_def divide_le_eq)
  have ea: "\<bar>a - q\<bar> \<le> q / 2 ^ 53"
    using fl_error [of q] q0 by (simp add: a_def)
  have "q / 2 ^ 53 \<le> q" "q / 2 ^ 53 \<le> 1 / 2 ^ 53"
    using q0 q1 by (simp_all add: field_simps)
  with ea have a0: "0 \<le> a" and a1: "a \<le> 1 + 1 / 2 ^ 53"
    using q0 q1 by linarith+
  have "\<bar>b - a * 1000\<bar> \<le> \<bar>a * 1000\<bar> / 2 ^ 53"
    unfolding b_def by (rule fl_error)
  then have eb: "\<bar>b - a * 1000\<bar> \<le> a * 1000 / 2 ^ 53"
    using a0 by simp
  have "b - 1000 * q = (b - a * 1000) + 1000 * (a - q)"
    by (simp add: algebra_simps)
  then have "\<bar>b - 1000 * q\<bar> \<le> \<bar>b - a * 1000\<bar> + \<bar>1000 * (a - q)\<bar>"
    by (simp only: abs_triangle_ineq)
  also have "\<bar>1000 * (a - q)\<bar> = 1000 * \<bar>a - q\<bar>"
    by (simp only: abs_mult abs_numeral)
  finally have "\<bar>b - 1000 * q\<bar> \<le> \<bar>b - a * 1000\<bar> + 1000 * \<bar>a - q\<bar>" .
  also have "\<dots> \<le> a * 1000 / 2 ^ 53 + 1000 * (q / 2 ^ 53)"
    using ea eb by (intro add_mono mult_left_mono) simp_all
  also have "\<dots> \<le> (1 + 1 / 2 ^ 53) * 1000 / 2 ^ 53 + 1000 * (1 / 2 ^ 53)"
    using a1 q1 by (intro add_mono mult_left_mono divide_right_mono mult_right_mono) simp_all
  also have "\<dots> \<le> 1 / 2 ^ 42"
    by simp
  finally show ?thesis
    by (simp add: b_def a_def q_def)
qed

lemma permille_rounded:
  fixes t :: int and n :: nat
  assumes t: "0 \<le> t" "t \<le> int n" and n: "0 < n" "n < 2 ^ 32"
  shows "\<bar>rat_of_int (js_round (fl (fl (of_int t / of_nat n) * 1000))) - 1000 * (of_int t / of_nat n)\<bar>
           \<le> 1 / 2"
proof -
  define b where "b = fl (fl (of_int t / of_nat n) * 1000)"
  define K where "K = js_round b"
  define N :: rat where "N = of_nat n"
  define D where "D = 2 * int n * K - 2000 * t"
  have N: "0 < N" "N < 2 ^ 32"
    using n by (simp_all add: N_def)
  have err: "\<bar>b - 1000 * (of_int t / N)\<bar> \<le> 1 / 2 ^ 42"
    unfolding b_def N_def by (rule permille_error [OF t n(1)])
  have D: "of_int K - 1000 * (of_int t / N) = of_int D / (2 * N)"
    using N by (simp add: D_def N_def field_simps)
  have small: "2 * N * (1 / 2 ^ 42) < 1"
    using N by simp
  have up: "of_int K \<le> b + 1 / 2" and lo: "b - 1 / 2 < of_int K"
    unfolding K_def by (rule js_round_bounds)+
  define X where "X = 1000 * (of_int t / N)"
  define e :: rat where "e = 1 / 2 ^ 42"
  from err have errs: "b - X \<le> e" "X - b \<le> e"
    unfolding X_def e_def by (simp_all only: abs_le_iff minus_diff_eq)
  have "of_int D / (2 * N) \<le> 1 / 2 + 1 / 2 ^ 42"
    using up errs unfolding D [symmetric] X_def [symmetric] e_def [symmetric] by linarith
  then have "of_int D \<le> N + 2 * N * (1 / 2 ^ 42)"
    using N by (simp add: field_simps)
  then have "(of_int D :: rat) < of_int (int n + 1)"
    using small by (simp add: N_def)
  then have Dup: "D \<le> int n"
    by (simp only: of_int_less_iff)
  have "- (1 / 2) - 1 / 2 ^ 42 < of_int D / (2 * N)"
    using lo errs unfolding D [symmetric] X_def [symmetric] e_def [symmetric] by linarith
  then have "- N - 2 * N * (1 / 2 ^ 42) < of_int D"
    using N by (simp add: field_simps)
  then have "(of_int (- int n - 1) :: rat) < of_int D"
    using small by (simp add: N_def)
  then have Dlo: "- int n \<le> D"
    by (simp only: of_int_less_iff)
  have "\<bar>of_int D / (2 * N)\<bar> \<le> 1 / 2"
  proof -
    have "\<bar>(of_int D :: rat)\<bar> \<le> N"
      using Dup Dlo unfolding N_def by (simp add: abs_le_iff)
    then show ?thesis
      using N by (simp add: field_simps)
  qed
  then have "\<bar>of_int K - 1000 * (of_int t / N)\<bar> \<le> 1 / 2"
    by (simp only: D)
  then show ?thesis
    unfolding K_def b_def N_def .
qed

lemma completion_of_rounds:
  fixes t :: int and n :: nat
  assumes "0 \<le> t" "t \<le> int n" "0 < n" "n < 2 ^ 32"
  shows "\<exists>K :: int. \<bar>rat_of_int K / 10 - of_int t / of_nat n * 100\<bar> \<le> 1 / 20
           \<and> completion_of t n = fl (of_int K / 10)"
proof -
  define K where "K = js_round (fl (fl (of_int t / of_nat n) * 1000))"
  have c: "completion_of t n = fl (of_int K / 10)"
    using assms(3) by (simp add: completion_of_def K_def)
  have "rat_of_int K / 10 - of_int t / of_nat n * 100 =
          (rat_of_int K - 1000 * (of_int t / of_nat n)) / 10"
    by (simp add: diff_divide_distrib)
  then have "\<bar>rat_of_int K / 10 - of_int t / of_nat n * 100\<bar> =
          \<bar>rat_of_int K - 1000 * (of_int t / of_nat n)\<bar> / 10"
    by (simp only: abs_divide abs_numeral)
  also have "\<dots> \<le> (1 / 2) / 10"
    unfolding K_def by (intro divide_right_mono permille_rounded [OF assms]) simp
  finally have "\<bar>rat_of_int K / 10 - of_int t / of_nat n * 100\<bar> \<le> 1 / 20"
    by simp
  with c show ?thesis by blast
qed

lemma fl_exact: "fl 1 = 1" "fl 1000 = 1000" "fl 100 = 100" "js_round 1000 = 1000"
  by code_simp+

lemma completion_of_all: "0 < n \<Longrightarrow> completion_of (int n) n = 100"
  by (simp add: completion_of_def fl_exact)

text \<open>With no key left untranslated the completion is 100.\<close>

lemma completion_full:
  assumes "syncLanguage enContent langFile = Inr (m, st)" and "untranslated st = 0"
  shows "completion st = 100"
proof (cases "enContent = []")
  case True
  with assms(1) show ?thesis by (auto simp: syncLanguage_empty_source)
next
  case False
  with syncLanguage_cases [OF assms(1)]
  have st: "st = sync_stats enContent (read_lang langFile) (sort (map fst enContent))"
    by simp
  from assms(2) False show ?thesis
    unfolding st sync_stats_def by (simp add: completion_of_all)
qed

text \<open>
  C4: the completion returned is 100 for a source without keys, and otherwise the double
  nearest to \<open>K / 10\<close>, where \<open>K / 10\<close> is \<open>translated / total * 100\<close> rounded to one
  decimal: a multiple of one tenth at most a twentieth away from it. (An array of keys is
  shorter than \<open>2\<^sup>3\<^sup>2\<close>; the rounding errors of the two double operations before
  \<^verbatim>\<open>Math.round\<close> are too small to move the result to another tenth.)
\<close>

theorem completion_rounds:
  assumes run: "syncLanguage enContent langFile = Inr (m, st)"
    and len: "length enContent < 2 ^ 32"
  shows "(enContent = [] \<longrightarrow> completion st = 100)
       \<and> (enContent \<noteq> [] \<longrightarrow>
            (\<exists>K :: int. \<bar>rat_of_int K / 10
                            - of_int (translated st) / of_nat (length enContent) * 100\<bar> \<le> 1 / 20
                        \<and> completion st = fl (of_int K / 10)))"
proof (intro conjI impI)
  assume "enContent = []"
  with run show "completion st = 100" by (auto simp: syncLanguage_empty_source)
next
  assume ne: "enContent \<noteq> []"
  define keys where "keys = sort (map fst enContent)"
  define u where "u = length (filter (still_english enContent (read_lang langFile)) keys)"
  have n: "length keys = length enContent"
    by (simp add: keys_def)
  from syncLanguage_cases [OF run] ne
  have st: "st = sync_stats enContent (read_lang langFile) keys"
    by (simp add: keys_def)
  have t: "translated st = int (length enContent) - int u"
    and c: "completion st = completion_of (int (length enContent) - int u) (length enContent)"
    by (simp_all add: st sync_stats_def u_def n)
  have "u \<le> length keys"
    unfolding u_def by (rule length_filter_le)
  then have b: "0 \<le> int (length enContent) - int u" "int (length enContent) - int u \<le> int (length enContent)"
    by (simp_all add: n)
  from ne have pos: "0 < length enContent" by simp
  from completion_of_rounds [OF b pos len]
  show "\<exists>K :: int. \<bar>rat_of_int K / 10 - of_int (translated st) / of_nat (length enContent) * 100\<bar> \<le> 1 / 20
          \<and> completion st = fl (of_int K / 10)"
    unfolding t c .
qed

theorem completion_rounds_witness:
  "syncLanguage [(js ''a'', js ''x''), (js ''b'', js ''y''), (js ''c'', js ''z'')]
       (Present (Content (JObj [(js ''a'', JStr (js ''q''))]))) =
     Inr ([(js ''a'', JStr (js ''q'')), (js ''b'', JStr (js ''y'')), (js ''c'', JStr (js ''z''))],
          \<lparr>translated = 1, untranslated = 2, missing = 2,
           completion = 2343279181116211 / 70368744177664\<rparr>)
   \<and> length [(js ''a'', js ''x''), (js ''b'', js ''y''), (js ''c'', js ''z'')] < (2 :: nat) ^ 32
   \<and> (\<exists>K :: int. \<bar>rat_of_int K / 10 - 1 / 3 * 100\<bar> \<le> 1 / 20
          \<and> 2343279181116211 / 70368744177664 = fl (of_int K / 10))"
proof -
  have run: "syncLanguage [(js ''a'', js ''x''), (js ''b'', js ''y''), (js ''c'', js ''z'')]
       (Present (Content (JObj [(js ''a'', JStr (js ''q''))]))) =
     Inr ([(js ''a'', JStr (js ''q'')), (js ''b'', JStr (js ''y'')), (js ''c'', JStr (js ''z''))],
          \<lparr>translated = 1, untranslated = 2, missing = 2,
           completion = 2343279181116211 / 70368744177664\<rparr>)"
    by code_simp
  have len: "length [(js ''a'', js ''x''), (js ''b'', js ''y''), (js ''c'', js ''z'')] < (2 :: nat) ^ 32"
    by simp
  from completion_rounds [OF run len] run len show ?thesis by simp
qed

section \<open>The validator: the shape of the result\<close>

lemma fst_check_entries_Cons:
  "fst (check_entries enContent ((key, value) # entries)) =
     (case map_of enContent key of
        None \<Rightarrow> []
      | Some enValue \<Rightarrow>
          (case value of
             JStr v \<Rightarrow> fst (check_value key enValue v)
           | _ \<Rightarrow> [NotAString key (typeof value)])) @ fst (check_entries enContent entries)"
  by (simp split: prod.split option.split jsval.split)

lemma fst_check_entries_append:
  "fst (check_entries enContent (xs @ ys)) =
     fst (check_entries enContent xs) @ fst (check_entries enContent ys)"
proof (induction xs)
  case Nil
  show ?case by simp
next
  case (Cons x xs)
  obtain key val where x: "x = (key, val)" by (cases x)
  show ?case
    unfolding x append_Cons fst_check_entries_Cons Cons.IH by simp
qed

lemma check_value_in_check_entries:
  assumes "(key, JStr v) \<in> set entries" and "map_of enContent key = Some enValue"
  shows "set (fst (check_value key enValue v)) \<subseteq> set (fst (check_entries enContent entries))"
proof -
  from assms(1) obtain xs ys where "entries = xs @ (key, JStr v) # ys"
    by (auto simp: in_set_conv_decomp)
  then show ?thesis
    using assms(2)
    by (auto simp add: fst_check_entries_append fst_check_entries_Cons simp del: check_entries.simps)
qed

lemma fst_check_value:
  "fst (check_value key enValue value) =
     map (\<lambda>(ic, re, patLabel). BlockedContent key patLabel)
       (filter (\<lambda>(ic, re, patLabel). re_test ic re value) BLOCKED_PATTERNS)
     @ (if hasControlChars value then [ControlChars key] else [])
     @ (if \<not> set (extractPlaceholders enValue) \<subseteq> set (extractPlaceholders value)
        then [MissingPlaceholders key
                (filter (\<lambda>p. p \<notin> set (extractPlaceholders value)) (extractPlaceholders enValue))]
        else [])
     @ (if \<not> set (extractPlaceholders value) \<subseteq> set (extractPlaceholders enValue)
        then [ExtraPlaceholders key
                (filter (\<lambda>p. p \<notin> set (extractPlaceholders enValue)) (extractPlaceholders value))]
        else [])
     @ (if length value > MAX_LENGTH then [ExceedsCap key (length value)] else [])"
  by (auto simp: check_value_def Let_def filter_empty_conv)

lemma fst_validate_object:
  assumes "label \<noteq> js ''en.json''" and "label \<noteq> js ''report.json''"
  shows "fst (validate label enContent (Content (JObj entries))) =
     (if \<not> is_lang_code (replace_first (js ''.json'') [] label) then [BadLanguageCode label] else [])
     @ map MissingKey (filter (\<lambda>key. key \<notin> fst ` set entries) (remdups (map fst enContent)))
     @ map UnknownKey (filter (\<lambda>key. key \<notin> fst ` set enContent) (remdups (map fst entries)))
     @ fst (check_entries enContent entries)"
  using assms by (simp add: validate_def Let_def split: prod.split)

lemma check_value_in_validate:
  assumes "label \<noteq> js ''en.json''" and "label \<noteq> js ''report.json''"
    and "(key, JStr v) \<in> set entries" and "map_of enContent key = Some enValue"
  shows "set (fst (check_value key enValue v))
           \<subseteq> set (fst (validate label enContent (Content (JObj entries))))"
  using check_value_in_check_entries [OF assms(3,4)]
  by (auto simp: fst_validate_object [OF assms(1,2)])

text \<open>
  C9: for a file named \<^verbatim>\<open>en.json\<close> or \<^verbatim>\<open>report.json\<close> the validator returns one error
  and no warning, whatever the source and the file hold: no further check runs.
\<close>

theorem reserved_names_stop:
  "validate (js ''en.json'') enContent langFile = ([SourceOfTruth], [])
   \<and> validate (js ''report.json'') enContent langFile = ([AutoGenerated], [])"
  by (simp add: validate_def js_def)

theorem reserved_names_stop_witness:
  "validate (js ''en.json'') [(js ''greeting'', js ''Hello'')]
       (Content (JObj [(js ''greeting'', JStr (js ''<script>''))])) = ([SourceOfTruth], [])
   \<and> validate (js ''report.json'') [(js ''greeting'', js ''Hello'')] (Failed (js ''Unexpected token'')) =
       ([AutoGenerated], [])"
proof (rule conjI)
  show "validate (js ''en.json'') [(js ''greeting'', js ''Hello'')]
       (Content (JObj [(js ''greeting'', JStr (js ''<script>''))])) = ([SourceOfTruth], [])"
    by (rule reserved_names_stop [THEN conjunct1])
  show "validate (js ''report.json'') [(js ''greeting'', js ''Hello'')] (Failed (js ''Unexpected token'')) =
       ([AutoGenerated], [])"
    by (rule reserved_names_stop [THEN conjunct2])
qed

subsection \<open>Missing and unknown keys\<close>

lemma count_list_append: "count_list (xs @ ys) x = count_list xs x + count_list ys x"
  by (induction xs) auto

lemma count_list_distinct:
  "distinct xs \<Longrightarrow> count_list xs x = (if x \<in> set xs then 1 else 0)"
  by (induction xs) auto

lemma count_list_map_inj:
  "inj f \<Longrightarrow> count_list (map f xs) (f x) = count_list xs x"
  by (induction xs) (auto dest: injD)

lemma count_list_absent: "x \<notin> set xs \<Longrightarrow> count_list xs x = 0"
  by (induction xs) auto

lemma no_key_errors_in_check_entries:
  "MissingKey k \<notin> set (fst (check_entries enContent entries))
   \<and> UnknownKey k \<notin> set (fst (check_entries enContent entries))"
proof (induction entries)
  case Nil
  show ?case by simp
next
  case (Cons e entries)
  obtain key val where e: "e = (key, val)" by (cases e)
  from Cons.IH show ?case
    unfolding e fst_check_entries_Cons
    by (auto simp: fst_check_value split: option.split jsval.split)
qed

text \<open>
  C8: when the file has no reserved name and parses to an object, the errors hold
  \<open>MissingKey key\<close> once for each key of the source that the object lacks, and
  \<open>UnknownKey key\<close> once for each key of the object that the source lacks (and for no
  other key).
\<close>

theorem key_set_errors:
  assumes "label \<noteq> js ''en.json''" and "label \<noteq> js ''report.json''"
  shows "count_list (fst (validate label enContent (Content (JObj entries)))) (MissingKey key) =
           (if key \<in> fst ` set enContent \<and> key \<notin> fst ` set entries then 1 else 0)
       \<and> count_list (fst (validate label enContent (Content (JObj entries)))) (UnknownKey key) =
           (if key \<in> fst ` set entries \<and> key \<notin> fst ` set enContent then 1 else 0)"
proof -
  have inj: "inj MissingKey" "inj UnknownKey"
    by (auto simp: inj_def)
  have m: "count_list (map MissingKey ks) (MissingKey key) = (if key \<in> set ks then 1 else 0)"
    and u: "count_list (map UnknownKey ks) (UnknownKey key) = (if key \<in> set ks then 1 else 0)"
    if "distinct ks" for ks
    using that by (simp_all add: count_list_map_inj inj count_list_distinct)
  have mu: "count_list (map MissingKey ks) (UnknownKey key) = 0"
    and um: "count_list (map UnknownKey ks) (MissingKey key) = 0" for ks
    by (auto intro: count_list_absent)
  show ?thesis
    unfolding fst_validate_object [OF assms] count_list_append
    by (auto simp: m u mu um count_list_absent no_key_errors_in_check_entries)
qed

theorem key_set_errors_witness:
  "js ''fr.json'' \<noteq> js ''en.json'' \<and> js ''fr.json'' \<noteq> js ''report.json''
   \<and> count_list (fst (validate (js ''fr.json'') [(js ''greeting'', js ''Hello''), (js ''bye'', js ''Bye'')]
          (Content (JObj [(js ''bye'', JStr (js ''Salut'')), (js ''foo'', JStr (js ''bar''))]))))
         (MissingKey (js ''greeting'')) = 1
   \<and> count_list (fst (validate (js ''fr.json'') [(js ''greeting'', js ''Hello''), (js ''bye'', js ''Bye'')]
          (Content (JObj [(js ''bye'', JStr (js ''Salut'')), (js ''foo'', JStr (js ''bar''))]))))
         (UnknownKey (js ''foo'')) = 1"
proof -
  have a: "js ''fr.json'' \<noteq> js ''en.json''" "js ''fr.json'' \<noteq> js ''report.json''"
    by (simp_all add: js_def)
  from key_set_errors [OF a, of "[(js ''greeting'', js ''Hello''), (js ''bye'', js ''Bye'')]"
      "[(js ''bye'', JStr (js ''Salut'')), (js ''foo'', JStr (js ''bar''))]" "js ''greeting''"]
    key_set_errors [OF a, of "[(js ''greeting'', js ''Hello''), (js ''bye'', js ''Bye'')]"
      "[(js ''bye'', JStr (js ''Salut'')), (js ''foo'', JStr (js ''bar''))]" "js ''foo''"]
    a show ?thesis by (simp add: js_def)
qed

subsection \<open>Control characters\<close>

lemma re_test_single:
  "re_test ic [(cls, Once)] s \<longleftrightarrow> (\<exists>c \<in> set s. class_match ic cls c)"
  by (induction s) (auto simp: re_test_def)

lemma hasControlChars_iff:
  "hasControlChars s \<longleftrightarrow> (\<exists>c \<in> set s. ascii_control c \<and> c \<noteq> 0x09 \<and> c \<noteq> 0x0A \<and> c \<noteq> 0x0D)"
proof -
  have "class_match False (Chars [(0x00, 0x08), (0x0B, 0x0B), (0x0C, 0x0C), (0x0E, 0x1F), (0x7F, 0x7F)]) c
          \<longleftrightarrow> ascii_control c \<and> c \<noteq> 0x09 \<and> c \<noteq> 0x0A \<and> c \<noteq> 0x0D" for c :: jschar
    unfolding class_match.simps in_class_def in_ranges_def ascii_control_def
    by simp unat_arith
  then show ?thesis
    by (simp add: hasControlChars_def control_re_def re_test_single)
qed

text \<open>
  C7, as amended: for a key of the source whose value in the candidate is a string, a
  value that holds an ASCII control character (\<open>U+0000\<close> to \<open>U+001F\<close>, or \<open>U+007F\<close>) other
  than tab, line feed and carriage return gets the error \<open>ControlChars key\<close>.
\<close>

theorem control_chars_flagged:
  assumes "label \<noteq> js ''en.json''" and "label \<noteq> js ''report.json''"
    and "(key, JStr value) \<in> set entries" and "map_of enContent key = Some enValue"
    and "c \<in> set value" and "ascii_control c" and "c \<notin> {0x09, 0x0A, 0x0D}"
  shows "ControlChars key \<in> set (fst (validate label enContent (Content (JObj entries))))"
proof -
  have "hasControlChars value"
    using assms(5-7) by (auto simp: hasControlChars_iff)
  then have "ControlChars key \<in> set (fst (check_value key enValue value))"
    by (simp add: fst_check_value)
  with check_value_in_validate [OF assms(1-4)] show ?thesis by auto
qed

theorem control_chars_flagged_witness:
  "js ''fr.json'' \<noteq> js ''en.json'' \<and> js ''fr.json'' \<noteq> js ''report.json''
   \<and> (js ''k'', JStr [0x61, 0x07]) \<in> set [(js ''k'', JStr [0x61, 0x07])]
   \<and> map_of [(js ''k'', js ''x'')] (js ''k'') = Some (js ''x'')
   \<and> (0x07 :: jschar) \<in> set [0x61, 0x07] \<and> ascii_control 0x07 \<and> (0x07 :: jschar) \<notin> {0x09, 0x0A, 0x0D}
   \<and> ControlChars (js ''k'') \<in> set (fst (validate (js ''fr.json'') [(js ''k'', js ''x'')]
         (Content (JObj [(js ''k'', JStr [0x61, 0x07])]))))"
proof -
  have a: "js ''fr.json'' \<noteq> js ''en.json''" "js ''fr.json'' \<noteq> js ''report.json''"
    by (simp_all add: js_def)
  have b: "(js ''k'', JStr [0x61, 0x07]) \<in> set [(js ''k'', JStr [0x61, 0x07])]"
    "map_of [(js ''k'', js ''x'')] (js ''k'') = Some (js ''x'')"
    "(0x07 :: jschar) \<in> set [0x61, 0x07]" "ascii_control 0x07" "(0x07 :: jschar) \<notin> {0x09, 0x0A, 0x0D}"
    by (simp_all add: ascii_control_def)
  from control_chars_flagged [OF a b] a b show ?thesis by simp
qed

text \<open>
  C7 as stated fails for the control characters \<open>U+0080\<close> to \<open>U+009F\<close>, which the
  pattern of \<^verbatim>\<open>hasControlChars\<close> does not list: a value holding \<open>U+0085\<close> (next line)
  passes without an error.
\<close>

theorem non_ascii_control_passes:
  "unicode_control 0x85 \<and> (0x85 :: jschar) \<notin> {0x09, 0x0A, 0x0D}
   \<and> validate (js ''fr.json'') [(js ''k'', js ''x'')] (Content (JObj [(js ''k'', JStr [0x85])])) = ([], [])"
  by code_simp

subsection \<open>Placeholders\<close>

text \<open>
  What the pattern of \<open>extractPlaceholders\<close> matches at the start of a string:
  \<^verbatim>\<open>{{body}}\<close>, the body being every code unit up to the first closing brace, and not
  empty.
\<close>

lemma rmatch_suffix: "rmatch ic r s = Some rest \<Longrightarrow> \<exists>m. s = m @ rest"
proof (induction ic r s arbitrary: rest rule: rmatch.induct)
  case (1 ic s)
  then show ?case by simp
next
  case (2 ic cls r s)
  then show ?case
    by (cases s) (auto split: if_splits, metis append_Cons)
next
  case (3 ic cls r s)
  show ?case
  proof (cases "case s of [] \<Rightarrow> None | c # cs \<Rightarrow> if class_match ic cls c then rmatch ic r cs else None")
    case None
    with "3.prems" have "rmatch ic r s = Some rest" by simp
    with "3.IH"(2) [OF None] show ?thesis by blast
  next
    case (Some a)
    with "3.prems" have a: "a = rest" by simp
    from Some obtain c cs where s: "s = c # cs" and c: "class_match ic cls c" and r: "rmatch ic r cs = Some a"
      by (cases s) (auto split: if_splits)
    from "3.IH"(1) [OF s c r] a s show ?thesis by (metis append_Cons)
  qed
next
  case (4 ic cls n r s)
  then show ?case
    by (cases s) (auto split: if_splits, metis append_Cons)
next
  case (5 ic cls r s)
  show ?case
  proof (cases "case s of [] \<Rightarrow> None | c # cs \<Rightarrow> if class_match ic cls c then rmatch ic ((cls, AtLeast 0) # r) cs else None")
    case None
    with "5.prems" have "rmatch ic r s = Some rest"
      by (simp only: rmatch.simps(5) [of ic cls r s] option.case)
    with "5.IH"(2) [OF None] show ?thesis by blast
  next
    case (Some a)
    with "5.prems" have a: "a = rest"
      by (simp only: rmatch.simps(5) [of ic cls r s] option.case option.inject)
    from Some obtain c cs where s: "s = c # cs" and c: "class_match ic cls c"
      and r: "rmatch ic ((cls, AtLeast 0) # r) cs = Some a"
      by (cases s) (auto split: if_splits)
    from "5.IH"(1) [OF s c r] a s show ?thesis by (metis append_Cons)
  qed
qed

lemma in_class_single: "in_class False [(a, a)] c \<longleftrightarrow> c = a"
  by (auto simp: in_class_def in_ranges_def)

lemma close_braces:
  "rmatch False (lit ''}}'') s = Some rest \<longleftrightarrow> s = 0x7D # 0x7D # rest"
  by (auto simp: lit_def in_class_single split: list.splits)

lemma placeholder_body:
  "rmatch False ((NotChars [(0x7D, 0x7D)], AtLeast 0) # lit ''}}'') s = Some rest \<Longrightarrow>
     \<exists>body. s = body @ 0x7D # 0x7D # rest \<and> 0x7D \<notin> set body"
proof (induction s)
  case Nil
  then show ?case
    by (simp add: close_braces)
next
  case (Cons c cs)
  have step: "rmatch False ((NotChars [(0x7D, 0x7D)], AtLeast 0) # lit ''}}'') (c # cs) =
      (case (if c \<noteq> 0x7D then rmatch False ((NotChars [(0x7D, 0x7D)], AtLeast 0) # lit ''}}'') cs else None) of
         Some rest \<Rightarrow> Some rest
       | None \<Rightarrow> rmatch False (lit ''}}'') (c # cs))"
    by (simp only: rmatch.simps(5) [of False _ _ "c # cs"] list.case class_match.simps in_class_single)
  show ?case
  proof (cases "c \<noteq> 0x7D \<and> rmatch False ((NotChars [(0x7D, 0x7D)], AtLeast 0) # lit ''}}'') cs \<noteq> None")
    case True
    then obtain a where a: "rmatch False ((NotChars [(0x7D, 0x7D)], AtLeast 0) # lit ''}}'') cs = Some a"
      by auto
    with True Cons.prems have "a = rest"
      unfolding step by simp
    with Cons.IH a obtain body where "cs = body @ 0x7D # 0x7D # rest" "0x7D \<notin> set body"
      by blast
    with True have "c # cs = (c # body) @ 0x7D # 0x7D # rest \<and> 0x7D \<notin> set (c # body)"
      by auto
    then show ?thesis by blast
  next
    case False
    with Cons.prems have "rmatch False (lit ''}}'') (c # cs) = Some rest"
      unfolding step by (auto split: if_splits)
    then have "c # cs = [] @ 0x7D # 0x7D # rest"
      by (simp add: close_braces)
    then show ?thesis by (metis empty_iff empty_set)
  qed
qed

lemma placeholder_match:
  assumes "rmatch False placeholder_re s = Some rest"
  shows "\<exists>body. s = 0x7B # 0x7B # body @ 0x7D # 0x7D # rest \<and> body \<noteq> [] \<and> 0x7D \<notin> set body"
proof -
  have re: "placeholder_re =
      (Chars [(0x7B, 0x7B)], Once) # (Chars [(0x7B, 0x7B)], Once)
        # (NotChars [(0x7D, 0x7D)], AtLeast (Suc 0)) # lit ''}}''"
    by (simp add: placeholder_re_def lit_def)
  from assms obtain c cs where s: "s = 0x7B # 0x7B # c # cs" and c: "c \<noteq> 0x7D"
    and r: "rmatch False ((NotChars [(0x7D, 0x7D)], AtLeast 0) # lit ''}}'') cs = Some rest"
    unfolding re
    by (auto simp: in_class_single split: list.splits if_splits simp del: rmatch.simps(5))
  from placeholder_body [OF r] obtain body where "cs = body @ 0x7D # 0x7D # rest" "0x7D \<notin> set body"
    by blast
  with s c have "s = 0x7B # 0x7B # (c # body) @ 0x7D # 0x7D # rest \<and> c # body \<noteq> [] \<and> 0x7D \<notin> set (c # body)"
    by auto
  then show ?thesis by blast
qed

lemma body_step:
  "rmatch False ((NotChars [(0x7D, 0x7D)], AtLeast 0) # lit ''}}'') (c # cs) =
      (case (if c \<noteq> 0x7D then rmatch False ((NotChars [(0x7D, 0x7D)], AtLeast 0) # lit ''}}'') cs else None) of
         Some rest \<Rightarrow> Some rest
       | None \<Rightarrow> rmatch False (lit ''}}'') (c # cs))"
  by (simp only: rmatch.simps(5) [of False _ _ "c # cs"] list.case class_match.simps in_class_single)

lemma placeholder_body_complete:
  "0x7D \<notin> set body \<Longrightarrow>
     rmatch False ((NotChars [(0x7D, 0x7D)], AtLeast 0) # lit ''}}'') (body @ 0x7D # 0x7D # rest) = Some rest"
proof (induction body)
  case Nil
  have "rmatch False (lit ''}}'') (0x7D # 0x7D # rest) = Some rest"
    by (simp add: close_braces)
  then show ?case
    unfolding append_Nil body_step by simp
next
  case (Cons c body)
  then have "c \<noteq> 0x7D" and "rmatch False ((NotChars [(0x7D, 0x7D)], AtLeast 0) # lit ''}}'') (body @ 0x7D # 0x7D # rest) = Some rest"
    by auto
  then show ?case
    unfolding append_Cons body_step by simp
qed

lemma placeholder_match_complete:
  assumes "body \<noteq> []" and "0x7D \<notin> set body"
  shows "rmatch False placeholder_re (0x7B # 0x7B # body @ 0x7D # 0x7D # rest) = Some rest"
proof -
  have re: "placeholder_re =
      (Chars [(0x7B, 0x7B)], Once) # (Chars [(0x7B, 0x7B)], Once)
        # (NotChars [(0x7D, 0x7D)], AtLeast (Suc 0)) # lit ''}}''"
    by (simp add: placeholder_re_def lit_def)
  from assms obtain c cs where body: "body = c # cs" and c: "c \<noteq> 0x7D" and cs: "0x7D \<notin> set cs"
    by (cases body) auto
  from placeholder_body_complete [OF cs]
  have "rmatch False ((NotChars [(0x7D, 0x7D)], AtLeast 0) # lit ''}}'') (cs @ 0x7D # 0x7D # rest) = Some rest" .
  with c show ?thesis
    unfolding re body
    by (simp add: in_class_single del: rmatch.simps(5))
qed

lemma first_split_unique:
  assumes "xs @ c # ys = xs' @ c # ys'" and "c \<notin> set xs" and "c \<notin> set xs'"
  shows "xs = xs' \<and> ys = ys'"
  using assms
proof (induction xs arbitrary: xs')
  case Nil
  then show ?case by (cases xs') auto
next
  case (Cons x xs)
  then show ?case by (cases xs') auto
qed

text \<open>The notions of the statement, with the cuts of the strings written out.\<close>

lemma in_set_splits: "(pre, rest) \<in> set (splits s) \<longleftrightarrow> s = pre @ rest"
proof (induction s arbitrary: pre)
  case Nil
  show ?case by auto
next
  case (Cons x xs)
  have "(pre, rest) \<in> set (splits (x # xs)) \<longleftrightarrow>
      pre = [] \<and> rest = x # xs \<or> (\<exists>pre'. pre = x # pre' \<and> (pre', rest) \<in> set (splits xs))"
    by (auto simp: image_iff)
  also have "\<dots> \<longleftrightarrow> x # xs = pre @ rest"
    unfolding Cons.IH by (cases pre) auto
  finally show ?case .
qed

lemma starts_with_iff: "starts_with s p \<longleftrightarrow> (\<exists>t. s = p @ t)"
  unfolding starts_with_def
  by (metis append_eq_conv_conj append_take_drop_id)

lemma is_placeholder_iff:
  "is_placeholder p \<longleftrightarrow> (\<exists>body. p = 0x7B # 0x7B # body @ [0x7D, 0x7D] \<and> body \<noteq> [] \<and> 0x7D \<notin> set body)"
proof
  assume "is_placeholder p"
  then have "p = 0x7B # 0x7B # body_of p @ [0x7D, 0x7D] \<and> body_of p \<noteq> [] \<and> 0x7D \<notin> set (body_of p)"
    by (simp add: is_placeholder_def js_def)
  then show "\<exists>body. p = 0x7B # 0x7B # body @ [0x7D, 0x7D] \<and> body \<noteq> [] \<and> 0x7D \<notin> set body"
    by blast
next
  assume "\<exists>body. p = 0x7B # 0x7B # body @ [0x7D, 0x7D] \<and> body \<noteq> [] \<and> 0x7D \<notin> set body"
  then obtain body where p: "p = 0x7B # 0x7B # body @ [0x7D, 0x7D]" and b: "body \<noteq> []" "0x7D \<notin> set body"
    by blast
  from p have "body_of p = body"
    by (simp add: body_of_def)
  with p b show "is_placeholder p"
    by (simp add: is_placeholder_def js_def)
qed

lemma open_braces_iff:
  "open_braces pre \<longleftrightarrow> (\<exists>u v. pre @ [0x7B] = u @ 0x7B # 0x7B # v \<and> 0x7D \<notin> set v)"
proof
  assume "open_braces pre"
  then obtain u w where s: "pre @ [0x7B] = u @ w" and w: "starts_with w (js ''{{'')" "0x7D \<notin> set w"
    by (auto simp: open_braces_def list_ex_iff in_set_splits js_def)
  from w(1) obtain v where "w = 0x7B # 0x7B # v"
    by (auto simp: starts_with_iff js_def)
  with s w(2) show "\<exists>u v. pre @ [0x7B] = u @ 0x7B # 0x7B # v \<and> 0x7D \<notin> set v"
    by auto
next
  assume "\<exists>u v. pre @ [0x7B] = u @ 0x7B # 0x7B # v \<and> 0x7D \<notin> set v"
  then obtain u v where s: "pre @ [0x7B] = u @ 0x7B # 0x7B # v" and v: "0x7D \<notin> set v"
    by blast
  have "starts_with (0x7B # 0x7B # v) (js ''{{'')"
    by (simp add: starts_with_iff js_def)
  moreover from v have "0x7D \<notin> set (0x7B # 0x7B # v :: jsstring)"
    by simp
  moreover from s have "(u, 0x7B # 0x7B # v) \<in> set (splits (pre @ js ''{''))"
    by (simp add: in_set_splits js_def)
  ultimately show "open_braces pre"
    unfolding open_braces_def list_ex_iff by blast
qed

lemma placeholder_in_iff:
  "placeholder_in p s \<longleftrightarrow>
     is_placeholder p \<and> (\<exists>pre post. s = pre @ p @ post \<and> \<not> open_braces pre)"
proof -
  have "list_ex (\<lambda>(pre, rest). starts_with rest p \<and> \<not> open_braces pre) (splits s)
      \<longleftrightarrow> (\<exists>pre post. s = pre @ p @ post \<and> \<not> open_braces pre)"
  proof
    assume "list_ex (\<lambda>(pre, rest). starts_with rest p \<and> \<not> open_braces pre) (splits s)"
    then obtain pre rest where "(pre, rest) \<in> set (splits s)" "starts_with rest p" "\<not> open_braces pre"
      by (auto simp: list_ex_iff)
    then show "\<exists>pre post. s = pre @ p @ post \<and> \<not> open_braces pre"
      by (auto simp: in_set_splits starts_with_iff)
  next
    assume "\<exists>pre post. s = pre @ p @ post \<and> \<not> open_braces pre"
    then obtain pre post where "s = pre @ p @ post" "\<not> open_braces pre"
      by blast
    then have "(pre, p @ post) \<in> set (splits s)" "starts_with (p @ post) p" "\<not> open_braces pre"
      by (auto simp: in_set_splits starts_with_iff)
    then show "list_ex (\<lambda>(pre, rest). starts_with rest p \<and> \<not> open_braces pre) (splits s)"
      unfolding list_ex_iff by blast
  qed
  then show ?thesis
    by (simp add: placeholder_in_def)
qed

lemma open_braces_Nil: "\<not> open_braces []"
  by (auto simp: open_braces_iff Cons_eq_append_conv)

lemma open_braces_suffix: "open_braces pre \<Longrightarrow> open_braces (xs @ pre)"
proof -
  assume "open_braces pre"
  then obtain u v where "pre @ [0x7B] = u @ 0x7B # 0x7B # v" "0x7D \<notin> set v"
    by (auto simp: open_braces_iff)
  then have "(xs @ pre) @ [0x7B] = (xs @ u) @ 0x7B # 0x7B # v \<and> 0x7D \<notin> set v"
    by simp
  then show ?thesis
    unfolding open_braces_iff by blast
qed

text \<open>
  The matches that \<^verbatim>\<open>match\<close> finds are the placeholders of the string: every match is
  one, and the search passes over none.
\<close>

lemma match_all_None:
  "rmatch ic r (c # cs) = None \<Longrightarrow> match_all ic r (c # cs) = match_all ic r cs"
  by (subst match_all.simps) simp

lemma match_all_Some:
  "rmatch ic r (m @ rest) = Some rest \<Longrightarrow> m \<noteq> [] \<Longrightarrow>
     match_all ic r (m @ rest) = m # match_all ic r rest"
  by (subst match_all.simps) simp

lemma match_all_sound:
  "p \<in> set (match_all False placeholder_re s) \<Longrightarrow>
     is_placeholder p \<and> (\<exists>pre post. s = pre @ p @ post \<and> \<not> open_braces pre)"
proof (induction False placeholder_re s rule: match_all.induct)
  case (1 s)
  show ?case
  proof (cases "rmatch False placeholder_re s")
    case None
    with "1.prems" obtain c cs where s: "s = c # cs" and p: "p \<in> set (match_all False placeholder_re cs)"
      by (subst (asm) match_all.simps) (auto split: list.splits)
    from "1.hyps"(1) [OF None s p] obtain pre post where
      ph: "is_placeholder p" and cs: "cs = pre @ p @ post" and pre: "\<not> open_braces pre"
      by blast
    from ph obtain body where pb: "p = 0x7B # 0x7B # body @ [0x7D, 0x7D]" and body: "0x7D \<notin> set body"
      unfolding is_placeholder_iff by blast
    have "\<not> open_braces (c # pre)"
    proof
      assume "open_braces (c # pre)"
      then obtain u v where uv: "(c # pre) @ [0x7B] = u @ 0x7B # 0x7B # v" and v: "0x7D \<notin> set v"
        unfolding open_braces_iff by blast
      show False
      proof (cases u)
        case Nil
        with uv have c: "c = 0x7B" and pv: "pre @ [0x7B] = 0x7B # v"
          by simp_all
        have "s = c # (pre @ [0x7B]) @ 0x7B # body @ 0x7D # 0x7D # post"
          by (simp add: s cs pb)
        then have "s = 0x7B # 0x7B # (v @ 0x7B # body) @ 0x7D # 0x7D # post"
          unfolding pv c by simp
        moreover have "v @ 0x7B # body \<noteq> []" "0x7D \<notin> set (v @ 0x7B # body)"
          using v body by simp_all
        ultimately have "rmatch False placeholder_re s = Some post"
          using placeholder_match_complete by metis
        with None show False by simp
      next
        case (Cons c' u')
        with uv have "pre @ [0x7B] = u' @ 0x7B # 0x7B # v"
          by simp
        with v pre show False
          unfolding open_braces_iff by blast
      qed
    qed
    moreover from s cs have "s = (c # pre) @ p @ post" by simp
    ultimately show ?thesis using ph by blast
  next
    case (Some rest)
    from placeholder_match [OF Some] obtain body where s: "s = 0x7B # 0x7B # body @ 0x7D # 0x7D # rest"
      and body: "body \<noteq> []" "0x7D \<notin> set body"
      by blast
    define m where "m = 0x7B # 0x7B # body @ [0x7D, 0x7D]"
    have sm: "s = m @ rest" by (simp add: m_def s)
    have m: "m \<noteq> []" "last m = 0x7D" "is_placeholder m"
      using body by (auto simp: m_def is_placeholder_iff)
    from "1.prems" Some m(1) have "p = m \<or> p \<in> set (match_all False placeholder_re rest)"
      unfolding sm by (simp add: match_all_Some)
    then show ?thesis
    proof
      assume "p = m"
      with sm have "s = [] @ p @ rest" by simp
      with \<open>p = m\<close> m(3) open_braces_Nil show ?thesis by blast
    next
      assume pr: "p \<in> set (match_all False placeholder_re rest)"
      from sm m(1) have shorter: "length rest < length s" by simp
      from "1.hyps"(2) [OF Some shorter pr] obtain pre post where
        ph: "is_placeholder p" and rest: "rest = pre @ p @ post" and pre: "\<not> open_braces pre"
        by blast
      have "\<not> open_braces (m @ pre)"
      proof
        assume "open_braces (m @ pre)"
        then obtain u v where uv: "(m @ pre) @ [0x7B] = u @ 0x7B # 0x7B # v" and v: "0x7D \<notin> set v"
          unfolding open_braces_iff by blast
        show False
        proof (cases "length m \<le> length u")
          case True
          from uv have "m @ (pre @ [0x7B]) = u @ 0x7B # 0x7B # v" by simp
          with True obtain u' where "u = m @ u'" "pre @ [0x7B] = u' @ 0x7B # 0x7B # v"
            by (auto simp: append_eq_append_conv2)
          with v pre show False
            unfolding open_braces_iff by blast
        next
          case False
          define i where "i = length m - 1"
          from False m(1) have i: "i < length m" "length u \<le> i"
            by (auto simp: i_def)
          have "((m @ pre) @ [0x7B]) ! i = last m"
            using i(1) m(1) by (simp add: nth_append last_conv_nth i_def)
          moreover from arg_cong [OF uv, of length] have "length u + 2 + length v = length m + length pre + 1"
            by simp
          with i have "i - length u < length (0x7B # 0x7B # v)"
            by simp
          then have "(0x7B # 0x7B # v) ! (i - length u) \<in> set (0x7B # 0x7B # v)"
            by (rule nth_mem)
          with i(2) have "(u @ 0x7B # 0x7B # v) ! i \<in> set (0x7B # 0x7B # v)"
            by (simp add: nth_append)
          ultimately have "(0x7D :: jschar) \<in> set (0x7B # 0x7B # v)"
            using uv m(2) by simp
          with v show False by simp
        qed
      qed
      moreover from sm rest have "s = (m @ pre) @ p @ post" by simp
      ultimately show ?thesis using ph by blast
    qed
  qed
qed

lemma match_all_complete:
  assumes ph: "is_placeholder p"
  shows "s = pre @ p @ post \<Longrightarrow> \<not> open_braces pre \<Longrightarrow> p \<in> set (match_all False placeholder_re s)"
proof (induction False placeholder_re s arbitrary: pre rule: match_all.induct)
  case (1 s)
  from ph obtain body where pb: "p = 0x7B # 0x7B # body @ [0x7D, 0x7D]"
    and body: "body \<noteq> []" "0x7D \<notin> set body"
    unfolding is_placeholder_iff by blast
  note s = \<open>s = pre @ p @ post\<close> and pre = \<open>\<not> open_braces pre\<close>
  show ?case
  proof (cases "rmatch False placeholder_re s")
    case None
    have "pre \<noteq> []"
    proof
      assume "pre = []"
      with s pb have "s = 0x7B # 0x7B # body @ 0x7D # 0x7D # post" by simp
      with placeholder_match_complete [OF body] None show False by simp
    qed
    then obtain c pre' where p': "pre = c # pre'" by (cases pre) auto
    with s have cs: "s = c # (pre' @ p @ post)" by simp
    from pre have "\<not> open_braces pre'"
      using open_braces_suffix [of pre' "[c]"] by (auto simp: p')
    from "1.hyps"(1) [OF None cs refl this] have "p \<in> set (match_all False placeholder_re (pre' @ p @ post))" .
    with None show ?thesis
      unfolding cs by (simp add: match_all_None)
  next
    case (Some rest)
    from placeholder_match [OF Some] obtain b0 where s0: "s = 0x7B # 0x7B # b0 @ 0x7D # 0x7D # rest"
      and b0: "b0 \<noteq> []" "0x7D \<notin> set b0"
      by blast
    define m where "m = 0x7B # 0x7B # b0 @ [0x7D, 0x7D]"
    have sm: "s = m @ rest" by (simp add: m_def s0)
    have m: "m \<noteq> []" by (simp add: m_def)
    from Some m have ma: "match_all False placeholder_re s = m # match_all False placeholder_re rest"
      unfolding sm by (rule match_all_Some)
    from sm m have shorter: "length rest < length s" by simp
    show ?thesis
    proof (cases "0x7D \<in> set pre")
      case False
      have e: "(pre @ 0x7B # 0x7B # body) @ 0x7D # (0x7D # post) = (0x7B # 0x7B # b0) @ 0x7D # (0x7D # rest)"
        using s s0 pb by simp
      have n: "0x7D \<notin> set (pre @ 0x7B # 0x7B # body)" "0x7D \<notin> set (0x7B # 0x7B # b0)"
        using False body b0 by simp_all
      from first_split_unique [OF e n] have eq: "pre @ 0x7B # 0x7B # body = 0x7B # 0x7B # b0"
        by simp
      have "pre = []"
      proof (rule ccontr)
        assume "pre \<noteq> []"
        then obtain c pre' where p': "pre = c # pre'" by (cases pre) auto
        with eq have c: "c = 0x7B" and e2: "pre' @ 0x7B # 0x7B # body = 0x7B # b0" by simp_all
        from e2 obtain v where "pre' @ [0x7B] = 0x7B # v" "set v \<subseteq> set pre' \<union> {0x7B}"
          by (cases pre') auto
        with c p' False have "pre @ [0x7B] = [] @ 0x7B # 0x7B # v \<and> 0x7D \<notin> set v"
          by auto
        with pre show False
          unfolding open_braces_iff by blast
      qed
      with eq have "p = m" by (simp add: m_def pb)
      with ma show ?thesis by simp
    next
      case True
      then obtain x y where xy: "pre = x @ 0x7D # y" and x: "0x7D \<notin> set x"
        by (auto dest: split_list_first)
      have e: "x @ 0x7D # (y @ p @ post) = (0x7B # 0x7B # b0) @ 0x7D # (0x7D # rest)"
        using s s0 xy by simp
      have n: "0x7D \<notin> set (0x7B # 0x7B # b0)"
        using b0 by simp
      from first_split_unique [OF e x n] have e1: "x = 0x7B # 0x7B # b0" and e2: "y @ p @ post = 0x7D # rest"
        by simp_all
      from e2 pb obtain y' where y: "y = 0x7D # y'" and r: "rest = y' @ p @ post"
        by (cases y) auto
      from pre have "\<not> open_braces y'"
        using open_braces_suffix [of y' "x @ [0x7D, 0x7D]"] by (auto simp: xy y)
      from "1.hyps"(2) [OF Some shorter r this] ma show ?thesis by simp
    qed
  qed
qed

lemma extractPlaceholders_iff:
  "p \<in> set (extractPlaceholders s) \<longleftrightarrow> placeholder_in p s"
  unfolding extractPlaceholders_def placeholder_in_iff set_sort
  using match_all_sound [of p s] match_all_complete [of p s]
  by blast

text \<open>
  Nothing of the form of a placeholder escapes: a piece of the string of that form is a
  placeholder of the string, or the end of one that begins at an earlier, open \<^verbatim>\<open>{{\<close>,
  as \<^verbatim>\<open>{{a}}\<close> in \<^verbatim>\<open>{{x{{a}}\<close>.
\<close>

lemma written_placeholder_covered:
  "is_placeholder p \<Longrightarrow> s = pre @ p @ post \<Longrightarrow> \<exists>m x. placeholder_in m s \<and> m = x @ p"
proof (induction pre arbitrary: p rule: length_induct)
  case (1 pre)
  note ph = \<open>is_placeholder p\<close> and s = \<open>s = pre @ p @ post\<close>
  show ?case
  proof (cases "open_braces pre")
    case False
    with ph s have "placeholder_in p s"
      unfolding placeholder_in_iff by blast
    then have "placeholder_in p s \<and> p = [] @ p" by simp
    then show ?thesis by blast
  next
    case True
    then obtain u v where uv: "pre @ [0x7B] = u @ 0x7B # 0x7B # v" and v: "0x7D \<notin> set v"
      unfolding open_braces_iff by blast
    from ph obtain body where pb: "p = 0x7B # 0x7B # body @ [0x7D, 0x7D]" and body: "0x7D \<notin> set body"
      unfolding is_placeholder_iff by blast
    define m1 where "m1 = 0x7B # 0x7B # (v @ 0x7B # body) @ [0x7D, 0x7D]"
    have "pre @ p = (pre @ [0x7B]) @ 0x7B # body @ [0x7D, 0x7D]"
      by (simp add: pb)
    then have eq: "pre @ p = u @ m1"
      unfolding uv m1_def by simp
    have m1: "is_placeholder m1"
      unfolding is_placeholder_iff m1_def using v body by auto
    from arg_cong [OF uv, of length] have shorter: "length u < length pre"
      by simp
    from eq s have "s = u @ m1 @ post" by simp
    with "1.IH" shorter m1 obtain m x where m: "placeholder_in m s" "m = x @ m1"
      by blast
    from eq shorter obtain x1 where "m1 = x1 @ p"
      by (auto simp: append_eq_append_conv2)
    with m have "placeholder_in m s \<and> m = (x @ x1) @ p" by simp
    then show ?thesis by blast
  qed
qed

lemma nested_braces_one_placeholder:
  "extractPlaceholders (js ''{{x{{a}}'') = [js ''{{x{{a}}'']
   \<and> placeholder_in (js ''{{x{{a}}'') (js ''{{x{{a}}'')
   \<and> \<not> placeholder_in (js ''{{a}}'') (js ''{{x{{a}}'')"
  by code_simp

text \<open>
  In a value written as text and placeholders, the placeholders are the ones written,
  each of them and nothing else.
\<close>

lemma match_all_Nil: "match_all False placeholder_re [] = []"
proof -
  have "rmatch False placeholder_re [] = None"
    by (simp add: placeholder_re_def lit_def)
  then show ?thesis
    by (subst match_all.simps) simp
qed

lemma match_all_text:
  "0x7B \<notin> set t \<Longrightarrow> match_all False placeholder_re (t @ r) = match_all False placeholder_re r"
proof (induction t)
  case Nil
  show ?case by simp
next
  case (Cons c t)
  have "rmatch False placeholder_re (c # t @ r) = None"
  proof (cases "rmatch False placeholder_re (c # t @ r)")
    case None
    then show ?thesis .
  next
    case (Some rest)
    from placeholder_match [OF Some] Cons.prems show ?thesis by auto
  qed
  with Cons show ?case
    by (simp add: match_all_None)
qed

lemma match_all_hole:
  assumes "body \<noteq> []" and "0x7D \<notin> set body"
  shows "match_all False placeholder_re ((js ''{{'' @ body @ js ''}}'') @ r)
           = (js ''{{'' @ body @ js ''}}'') # match_all False placeholder_re r"
proof (rule match_all_Some)
  from placeholder_match_complete [OF assms, of r]
  show "rmatch False placeholder_re ((js ''{{'' @ body @ js ''}}'') @ r) = Some r"
    by (simp add: js_def)
  show "js ''{{'' @ body @ js ''}}'' \<noteq> []"
    by (simp add: js_def)
qed

lemma match_all_render:
  "list_all well_formed ps \<Longrightarrow> match_all False placeholder_re (render ps) = holes ps"
proof (induction ps)
  case Nil
  show ?case by (simp add: match_all_Nil)
next
  case (Cons x ps)
  show ?case
  proof (cases x)
    case (Text t)
    with Cons show ?thesis by (simp add: match_all_text)
  next
    case (Hole body)
    with Cons.prems have b: "body \<noteq> []" "0x7D \<notin> set body" by simp_all
    from Cons match_all_hole [OF b, of "render ps"] show ?thesis
      by (simp add: Hole)
  qed
qed

lemma placeholder_in_render:
  "list_all well_formed ps \<Longrightarrow> placeholder_in p (render ps) \<longleftrightarrow> p \<in> set (holes ps)"
  unfolding extractPlaceholders_iff [symmetric]
  by (simp add: extractPlaceholders_def match_all_render)

text \<open>
  The errors on placeholders for a key come from the checks on the value of that key;
  an object has each key once.
\<close>

lemma in_check_entries:
  "x \<in> set (fst (check_entries enContent entries)) \<Longrightarrow>
     (\<exists>key v enValue. (key, JStr v) \<in> set entries \<and> map_of enContent key = Some enValue
        \<and> x \<in> set (fst (check_value key enValue v)))
     \<or> (\<exists>key t. x = NotAString key t)"
proof (induction entries)
  case Nil
  then show ?case by simp
next
  case (Cons e entries)
  obtain key val where e: "e = (key, val)" by (cases e)
  from Cons.prems consider
      (hd) "x \<in> set (case map_of enContent key of
        None \<Rightarrow> []
      | Some enValue \<Rightarrow>
          (case val of
             JStr v \<Rightarrow> fst (check_value key enValue v)
           | _ \<Rightarrow> [NotAString key (typeof val)]))"
    | (tl) "x \<in> set (fst (check_entries enContent entries))"
    unfolding e fst_check_entries_Cons by auto
  then show ?case
  proof cases
    case hd
    show ?thesis
    proof (cases "map_of enContent key")
      case None
      with hd show ?thesis by simp
    next
      case (Some enValue)
      show ?thesis
      proof (cases "\<exists>v. val = JStr v")
        case True
        then obtain v where v: "val = JStr v" by blast
        with hd Some have "x \<in> set (fst (check_value key enValue v))" by simp
        moreover have "(key, JStr v) \<in> set (e # entries)" by (simp add: e v)
        ultimately show ?thesis using Some by blast
      next
        case False
        with hd Some have "x = NotAString key (typeof val)"
          by (cases val) simp_all
        then show ?thesis by blast
      qed
    qed
  next
    case tl
    from Cons.IH [OF tl] show ?thesis
      by auto
  qed
qed

lemma placeholder_errors_in_check_value:
  "MissingPlaceholders key ps \<in> set (fst (check_value key' enValue value)) \<longleftrightarrow>
     key = key' \<and> ps \<noteq> []
     \<and> ps = filter (\<lambda>p. p \<notin> set (extractPlaceholders value)) (extractPlaceholders enValue)"
  "ExtraPlaceholders key ps \<in> set (fst (check_value key' enValue value)) \<longleftrightarrow>
     key = key' \<and> ps \<noteq> []
     \<and> ps = filter (\<lambda>p. p \<notin> set (extractPlaceholders enValue)) (extractPlaceholders value)"
  by (auto simp: fst_check_value filter_empty_conv)

lemma placeholder_errors_in_validate:
  assumes "label \<noteq> js ''en.json''" and "label \<noteq> js ''report.json''"
    and "distinct (map fst entries)"
    and "(key, JStr value) \<in> set entries" and "map_of enContent key = Some enValue"
  shows "MissingPlaceholders key ps \<in> set (fst (validate label enContent (Content (JObj entries))))
           \<longleftrightarrow> MissingPlaceholders key ps \<in> set (fst (check_value key enValue value))"
    and "ExtraPlaceholders key ps \<in> set (fst (validate label enContent (Content (JObj entries))))
           \<longleftrightarrow> ExtraPlaceholders key ps \<in> set (fst (check_value key enValue value))"
proof -
  have only: "v = value \<and> e = enValue"
    if "(key, JStr v) \<in> set entries" "map_of enContent key = Some e" for v e
    using that assms(3-5) by (auto dest: eq_key_imp_eq_value)
  have sub: "set (fst (check_value key enValue value)) \<subseteq> set (fst (check_entries enContent entries))"
    by (rule check_value_in_check_entries [OF assms(4,5)])
  have "MissingPlaceholders key ps \<in> set (fst (check_entries enContent entries))
      \<longleftrightarrow> MissingPlaceholders key ps \<in> set (fst (check_value key enValue value))"
  proof
    assume "MissingPlaceholders key ps \<in> set (fst (check_entries enContent entries))"
    from in_check_entries [OF this] obtain key' v e where
      "(key', JStr v) \<in> set entries" "map_of enContent key' = Some e"
      "MissingPlaceholders key ps \<in> set (fst (check_value key' e v))"
      by auto
    moreover from this(3) have "key = key'"
      by (simp add: placeholder_errors_in_check_value)
    ultimately show "MissingPlaceholders key ps \<in> set (fst (check_value key enValue value))"
      using only by blast
  next
    assume "MissingPlaceholders key ps \<in> set (fst (check_value key enValue value))"
    with sub show "MissingPlaceholders key ps \<in> set (fst (check_entries enContent entries))"
      by blast
  qed
  then show "MissingPlaceholders key ps \<in> set (fst (validate label enContent (Content (JObj entries))))
           \<longleftrightarrow> MissingPlaceholders key ps \<in> set (fst (check_value key enValue value))"
    by (auto simp: fst_validate_object [OF assms(1,2)])
  have "ExtraPlaceholders key ps \<in> set (fst (check_entries enContent entries))
      \<longleftrightarrow> ExtraPlaceholders key ps \<in> set (fst (check_value key enValue value))"
  proof
    assume "ExtraPlaceholders key ps \<in> set (fst (check_entries enContent entries))"
    from in_check_entries [OF this] obtain key' v e where
      "(key', JStr v) \<in> set entries" "map_of enContent key' = Some e"
      "ExtraPlaceholders key ps \<in> set (fst (check_value key' e v))"
      by auto
    moreover from this(3) have "key = key'"
      by (simp add: placeholder_errors_in_check_value)
    ultimately show "ExtraPlaceholders key ps \<in> set (fst (check_value key enValue value))"
      using only by blast
  next
    assume "ExtraPlaceholders key ps \<in> set (fst (check_value key enValue value))"
    with sub show "ExtraPlaceholders key ps \<in> set (fst (check_entries enContent entries))"
      by blast
  qed
  then show "ExtraPlaceholders key ps \<in> set (fst (validate label enContent (Content (JObj entries))))
           \<longleftrightarrow> ExtraPlaceholders key ps \<in> set (fst (check_value key enValue value))"
    by (auto simp: fst_validate_object [OF assms(1,2)])
qed

text \<open>
  C6: for a key of the source whose value in the candidate (an object, so its keys are
  distinct) is a string, a placeholder is
  named in an error \<open>MissingPlaceholders\<close> for the key exactly when it stands in the
  English value and not in the candidate's, and in an error \<open>ExtraPlaceholders\<close> for the
  key exactly when it stands in the candidate's value and not in the English one. So
  every placeholder dropped or added is reported, whatever its place among the others,
  and a placeholder that both values hold is not, however often or in whichever order
  they hold it: the placeholders are compared as sets.
\<close>

theorem placeholders_compared:
  assumes "label \<noteq> js ''en.json''" and "label \<noteq> js ''report.json''"
    and "distinct (map fst entries)"
    and "(key, JStr value) \<in> set entries" and "map_of enContent key = Some enValue"
  shows "((\<exists>ps. p \<in> set ps \<and>
              MissingPlaceholders key ps \<in> set (fst (validate label enContent (Content (JObj entries)))))
            \<longleftrightarrow> placeholder_in p enValue \<and> \<not> placeholder_in p value)
       \<and> ((\<exists>ps. p \<in> set ps \<and>
              ExtraPlaceholders key ps \<in> set (fst (validate label enContent (Content (JObj entries)))))
            \<longleftrightarrow> placeholder_in p value \<and> \<not> placeholder_in p enValue)"
proof -
  have "(\<exists>ps. p \<in> set ps \<and> MissingPlaceholders key ps \<in> set (fst (check_value key enValue value)))
      \<longleftrightarrow> p \<in> set (extractPlaceholders enValue) \<and> p \<notin> set (extractPlaceholders value)"
    unfolding placeholder_errors_in_check_value by (auto simp: filter_empty_conv)
  moreover have "(\<exists>ps. p \<in> set ps \<and> ExtraPlaceholders key ps \<in> set (fst (check_value key enValue value)))
      \<longleftrightarrow> p \<in> set (extractPlaceholders value) \<and> p \<notin> set (extractPlaceholders enValue)"
    unfolding placeholder_errors_in_check_value by (auto simp: filter_empty_conv)
  ultimately show ?thesis
    unfolding placeholder_errors_in_validate [OF assms] extractPlaceholders_iff
    by simp
qed

theorem placeholders_compared_witness:
  "js ''fr.json'' \<noteq> js ''en.json'' \<and> js ''fr.json'' \<noteq> js ''report.json''
   \<and> distinct (map fst [(js ''k'', JStr (js ''{{a}} a''))])
   \<and> (js ''k'', JStr (js ''{{a}} a'')) \<in> set [(js ''k'', JStr (js ''{{a}} a''))]
   \<and> map_of [(js ''k'', js ''{{a}} has {{b}}'')] (js ''k'') = Some (js ''{{a}} has {{b}}'')
   \<and> placeholder_in (js ''{{b}}'') (js ''{{a}} has {{b}}'') \<and> \<not> placeholder_in (js ''{{b}}'') (js ''{{a}} a'')
   \<and> (\<exists>ps. js ''{{b}}'' \<in> set ps \<and> MissingPlaceholders (js ''k'') ps
          \<in> set (fst (validate (js ''fr.json'') [(js ''k'', js ''{{a}} has {{b}}'')]
                (Content (JObj [(js ''k'', JStr (js ''{{a}} a''))])))))
   \<and> placeholder_in (js ''{{a}}'') (js ''{{a}} has {{b}}'') \<and> placeholder_in (js ''{{a}}'') (js ''{{a}} a'')
   \<and> \<not> (\<exists>ps. js ''{{a}}'' \<in> set ps \<and> MissingPlaceholders (js ''k'') ps
          \<in> set (fst (validate (js ''fr.json'') [(js ''k'', js ''{{a}} has {{b}}'')]
                (Content (JObj [(js ''k'', JStr (js ''{{a}} a''))])))))
   \<and> \<not> (\<exists>ps. js ''{{a}}'' \<in> set ps \<and> ExtraPlaceholders (js ''k'') ps
          \<in> set (fst (validate (js ''fr.json'') [(js ''k'', js ''{{a}} has {{b}}'')]
                (Content (JObj [(js ''k'', JStr (js ''{{a}} a''))])))))"
proof -
  have a: "js ''fr.json'' \<noteq> js ''en.json''" "js ''fr.json'' \<noteq> js ''report.json''"
    by (simp_all add: js_def)
  have b: "distinct (map fst [(js ''k'', JStr (js ''{{a}} a''))])"
    "(js ''k'', JStr (js ''{{a}} a'')) \<in> set [(js ''k'', JStr (js ''{{a}} a''))]"
    "map_of [(js ''k'', js ''{{a}} has {{b}}'')] (js ''k'') = Some (js ''{{a}} has {{b}}'')"
    by simp_all
  have c: "placeholder_in (js ''{{b}}'') (js ''{{a}} has {{b}}'')"
    "\<not> placeholder_in (js ''{{b}}'') (js ''{{a}} a'')"
    "placeholder_in (js ''{{a}}'') (js ''{{a}} has {{b}}'')"
    "placeholder_in (js ''{{a}}'') (js ''{{a}} a'')"
    by code_simp+
  from placeholders_compared [OF a b, of "js ''{{b}}''"] placeholders_compared [OF a b, of "js ''{{a}}''"]
    a b c
  show ?thesis by simp
qed

text \<open>
  Order and number do not count: the placeholders of the English value in another order,
  one of them twice, pass without an error.
\<close>

lemma reordered_placeholders_pass:
  "validate (js ''fr.json'') [(js ''k'', js ''{{a}} and {{b}}'')]
     (Content (JObj [(js ''k'', JStr (js ''{{b}}, {{a}}, {{a}}''))])) = ([], [])"
  by code_simp

subsection \<open>The blocked-content scan and the case of letters\<close>

lemma unat_to_upper:
  "unat (to_upper c) = (if 97 \<le> unat c \<and> unat c \<le> 122 then unat c - 32 else unat c)"
  by (simp add: to_upper_def word_le_nat_alt unat_sub)

lemma unat_to_lower:
  "unat (to_lower c) = (if 65 \<le> unat c \<and> unat c \<le> 90 then unat c + 32 else unat c)"
  by (simp add: to_lower_def word_le_nat_alt unat_word_ariths)

lemma to_upper_idem: "to_upper (to_upper c) = to_upper c"
  by (auto simp: word_unat_eq_iff unat_to_upper)

lemma to_upper_to_lower: "to_upper (to_lower c) = to_upper c"
  by (auto simp: word_unat_eq_iff unat_to_upper unat_to_lower)

lemma to_upper_eqD: "to_upper a = to_upper c \<Longrightarrow> a = c \<or> a = to_upper c \<or> a = to_lower c"
  by (auto simp: word_unat_eq_iff unat_to_upper unat_to_lower split: if_splits)

text \<open>
  \<open>in_class\<close> computes what ECMAScript specifies: the class has a member with the
  canonical form of the code unit.
\<close>

lemma in_class_canonical:
  "in_class ic rs c \<longleftrightarrow> (\<exists>a. in_ranges a rs \<and> canonicalize ic a = canonicalize ic c)"
proof (cases ic)
  case False
  then show ?thesis by (simp add: in_class_def canonicalize_def)
next
  case True
  show ?thesis
  proof
    assume "in_class ic rs c"
    then consider "in_ranges c rs" | "in_ranges (to_upper c) rs" | "in_ranges (to_lower c) rs"
      by (auto simp: in_class_def)
    then show "\<exists>a. in_ranges a rs \<and> canonicalize ic a = canonicalize ic c"
    proof cases
      case 1 then show ?thesis by blast
    next
      case 2 then show ?thesis
        using True by (auto simp: canonicalize_def intro!: exI [of _ "to_upper c"] to_upper_idem)
    next
      case 3 then show ?thesis
        using True by (auto simp: canonicalize_def intro!: exI [of _ "to_lower c"] to_upper_to_lower)
    qed
  next
    assume "\<exists>a. in_ranges a rs \<and> canonicalize ic a = canonicalize ic c"
    then obtain a where a: "in_ranges a rs" "to_upper a = to_upper c"
      using True by (auto simp: canonicalize_def)
    from to_upper_eqD [OF a(2)] a(1) show "in_class ic rs c"
      using True by (auto simp: in_class_def)
  qed
qed

lemma case_blind_ignoreCase: "case_blind True cls"
  by (cases cls) (simp_all add: case_blind_def in_class_canonical canonicalize_def)

lemma orelse_None:
  "(case x of Some rest \<Rightarrow> Some rest | None \<Rightarrow> y) = None \<longleftrightarrow> x = None \<and> y = None"
  by (cases x) auto

lemma one_step_case_blind:
  assumes cb: "case_blind ic cls" and vw: "map to_upper v = map to_upper w"
    and IH: "\<And>c cs d ds. v = c # cs \<Longrightarrow> w = d # ds \<Longrightarrow> class_match ic cls c
               \<Longrightarrow> map to_upper cs = map to_upper ds \<Longrightarrow> (k cs = None) = (k ds = None)"
  shows "(case v of [] \<Rightarrow> None | c # cs \<Rightarrow> if class_match ic cls c then k cs else None) = None
     \<longleftrightarrow> (case w of [] \<Rightarrow> None | d # ds \<Rightarrow> if class_match ic cls d then k ds else None) = None"
proof (cases v)
  case Nil
  with vw show ?thesis by simp
next
  case (Cons c cs)
  with vw obtain d ds where w: "w = d # ds" and cd: "to_upper c = to_upper d"
    and rest: "map to_upper cs = map to_upper ds"
    by (cases w) auto
  from cb cd have cm: "class_match ic cls c = class_match ic cls d"
    unfolding case_blind_def by blast
  show ?thesis
    using IH [OF Cons w _ rest] cm by (simp add: Cons w)
qed

lemma rmatch_case_blind:
  assumes "list_all (\<lambda>(cls, q). case_blind ic cls) r"
    and "map to_upper v = map to_upper w"
  shows "rmatch ic r v = None \<longleftrightarrow> rmatch ic r w = None"
  using assms
proof (induction ic r v arbitrary: w rule: rmatch.induct)
  case (1 ic s)
  then show ?case by simp
next
  case (2 ic cls r s)
  from "2.prems"(1) have cb: "case_blind ic cls" and r: "list_all (\<lambda>(cls, q). case_blind ic cls) r"
    by simp_all
  note e1 = rmatch.simps(2) [of ic cls r s]
  note e2 = rmatch.simps(2) [of ic cls r w]
  show ?case
    unfolding e1 e2
    apply (rule one_step_case_blind [OF cb "2.prems"(2)])
    apply (rule "2.IH" [OF _ _ r])
      apply assumption+
    done
next
  case (3 ic cls r s)
  from "3.prems"(1) have cb: "case_blind ic cls" and r: "list_all (\<lambda>(cls, q). case_blind ic cls) r"
    by simp_all
  define a where
    "a = (case s of [] \<Rightarrow> None | c # cs \<Rightarrow> if class_match ic cls c then rmatch ic r cs else None)"
  define b where
    "b = (case w of [] \<Rightarrow> None | d # ds \<Rightarrow> if class_match ic cls d then rmatch ic r ds else None)"
  have lhs: "rmatch ic ((cls, Opt) # r) s = None \<longleftrightarrow> a = None \<and> rmatch ic r s = None"
    unfolding a_def orelse_None [symmetric] by (simp only: rmatch.simps(3))
  have rhs: "rmatch ic ((cls, Opt) # r) w = None \<longleftrightarrow> b = None \<and> rmatch ic r w = None"
    unfolding b_def orelse_None [symmetric] by (simp only: rmatch.simps(3))
  have inner: "a = None \<longleftrightarrow> b = None"
    unfolding a_def b_def
    apply (rule one_step_case_blind [OF cb "3.prems"(2)])
    apply (rule "3.IH"(1) [OF _ _ r])
      apply assumption+
    done
  have outer: "rmatch ic r s = None \<longleftrightarrow> rmatch ic r w = None" if "a = None"
    using "3.IH"(2) [OF that [unfolded a_def] r "3.prems"(2)] .
  show ?case
    unfolding lhs rhs using inner outer by blast
next
  case (4 ic cls n r s)
  from "4.prems"(1) have cb: "case_blind ic cls"
    and r: "list_all (\<lambda>(cls, q). case_blind ic cls) ((cls, AtLeast n) # r)"
    by simp_all
  note e1 = rmatch.simps(4) [of ic cls n r s]
  note e2 = rmatch.simps(4) [of ic cls n r w]
  show ?case
    unfolding e1 e2
    apply (rule one_step_case_blind [OF cb "4.prems"(2)])
    apply (rule "4.IH" [OF _ _ r])
      apply assumption+
    done
next
  case (5 ic cls r s)
  from "5.prems"(1) have cb: "case_blind ic cls" and r: "list_all (\<lambda>(cls, q). case_blind ic cls) r"
    by simp_all
  define a where
    "a = (case s of [] \<Rightarrow> None
          | c # cs \<Rightarrow> if class_match ic cls c then rmatch ic ((cls, AtLeast 0) # r) cs else None)"
  define b where
    "b = (case w of [] \<Rightarrow> None
          | d # ds \<Rightarrow> if class_match ic cls d then rmatch ic ((cls, AtLeast 0) # r) ds else None)"
  have lhs: "rmatch ic ((cls, AtLeast 0) # r) s = None \<longleftrightarrow> a = None \<and> rmatch ic r s = None"
    unfolding a_def orelse_None [symmetric] by (rule arg_cong [where f = "\<lambda>x. x = None"]) (rule rmatch.simps(5))
  have rhs: "rmatch ic ((cls, AtLeast 0) # r) w = None \<longleftrightarrow> b = None \<and> rmatch ic r w = None"
    unfolding b_def orelse_None [symmetric] by (rule arg_cong [where f = "\<lambda>x. x = None"]) (rule rmatch.simps(5))
  have inner: "a = None \<longleftrightarrow> b = None"
    unfolding a_def b_def
    apply (rule one_step_case_blind [OF cb "5.prems"(2)])
    apply (rule "5.IH"(1) [OF _ _ "5.prems"(1)])
      apply assumption+
    done
  have outer: "rmatch ic r s = None \<longleftrightarrow> rmatch ic r w = None" if "a = None"
    using "5.IH"(2) [OF that [unfolded a_def] r "5.prems"(2)] .
  show ?case
    unfolding lhs rhs using inner outer by blast
qed

lemma re_test_case_blind:
  assumes "list_all (\<lambda>(cls, q). case_blind ic cls) r"
    and "map to_upper v = map to_upper w"
  shows "re_test ic r v = re_test ic r w"
  using assms(2)
proof (induction v arbitrary: w)
  case Nil
  then show ?case by (simp add: re_test_def)
next
  case (Cons c cs)
  then obtain d ds where w: "w = d # ds" and rest: "map to_upper cs = map to_upper ds"
    by (cases w) auto
  have "re_test ic r cs = re_test ic r ds"
    by (rule Cons.IH [OF rest])
  moreover have "rmatch ic r (c # cs) = None \<longleftrightarrow> rmatch ic r (d # ds) = None"
    using rmatch_case_blind [OF assms(1)] Cons.prems w by blast
  ultimately show ?case
    by (auto simp: re_test_def w)
qed

lemma all_case_blind_ignoreCase: "list_all (\<lambda>(cls, q). case_blind True cls) r"
  by (induction r) (auto simp: case_blind_ignoreCase)

lemma case_blind_rlo: "case_blind False (Chars [(0x202E, 0x202E)])"
  by (auto simp: case_blind_def in_class_def in_ranges_def word_unat_eq_iff word_le_nat_alt
      unat_to_upper split: if_splits)

lemma BLOCKED_PATTERNS_case_blind:
  "list_all (\<lambda>(ic, re, patLabel). list_all (\<lambda>(cls, q). case_blind ic cls) re) BLOCKED_PATTERNS"
  by (simp add: BLOCKED_PATTERNS_def all_case_blind_ignoreCase case_blind_rlo)

lemma blocked_of_check_value:
  "filter is_blocked (fst (check_value key enValue value)) =
     map (\<lambda>(ic, re, patLabel). BlockedContent key patLabel)
       (filter (\<lambda>(ic, re, patLabel). re_test ic re value) BLOCKED_PATTERNS)"
proof -
  have "filter is_blocked (map (\<lambda>(ic, re, patLabel). BlockedContent key patLabel) ps) =
          map (\<lambda>(ic, re, patLabel). BlockedContent key patLabel) ps" for ps :: "(bool \<times> regex \<times> string) list"
    by (induction ps) auto
  then show ?thesis
    by (simp add: fst_check_value)
qed

lemma blocked_case_variant:
  assumes "map to_upper v = map to_upper w"
  shows "filter is_blocked (fst (check_value key enValue v)) =
         filter is_blocked (fst (check_value key enValue' w))"
proof -
  have "filter (\<lambda>(ic, re, patLabel). re_test ic re v) BLOCKED_PATTERNS =
        filter (\<lambda>(ic, re, patLabel). re_test ic re w) BLOCKED_PATTERNS"
    using BLOCKED_PATTERNS_case_blind re_test_case_blind [OF _ assms]
    by (intro filter_cong) (auto simp: list_all_iff)
  then show ?thesis by (simp add: blocked_of_check_value)
qed

text \<open>
  C10: the blocked-content scan does not depend on the case of letters. Two files that
  differ in one value only, and there only in the case of ASCII letters, get the same
  blocked-content errors: an upper-case or mixed-case variant of a blocked pattern is
  reported as the lower-case form is.
\<close>

theorem blocked_scan_ignores_case:
  assumes "case_variant v w"
  shows "filter is_blocked (fst (validate label enContent (Content (JObj (xs @ (key, JStr v) # ys))))) =
         filter is_blocked (fst (validate label enContent (Content (JObj (xs @ (key, JStr w) # ys)))))"
proof (cases "label = js ''en.json'' \<or> label = js ''report.json''")
  case True
  then show ?thesis by (auto simp: validate_def)
next
  case False
  then have l: "label \<noteq> js ''en.json''" "label \<noteq> js ''report.json''" by simp_all
  from assms have vw: "map to_upper v = map to_upper w" by (simp add: case_variant_def)
  have mid: "filter is_blocked (fst (check_entries enContent [(key, JStr v)])) =
             filter is_blocked (fst (check_entries enContent [(key, JStr w)]))"
    using blocked_case_variant [OF vw]
    by (simp add: fst_check_entries_Cons del: check_entries.simps split: option.split)
  have split: "xs @ (key, JStr u) # ys = xs @ [(key, JStr u)] @ ys" for u
    by simp
  show ?thesis
    unfolding fst_validate_object [OF l] split fst_check_entries_append filter_append mid
    by simp
qed

theorem blocked_scan_ignores_case_witness:
  "case_variant (js ''<SCRIPT JAVASCRIPT: ONCLICK= <IFRAME'') (js ''<script javascript: onclick= <iframe'')
   \<and> filter is_blocked (fst (validate (js ''fr.json'') [(js ''k'', js ''x'')]
         (Content (JObj [(js ''k'', JStr (js ''<SCRIPT JAVASCRIPT: ONCLICK= <IFRAME''))]))))
       = [BlockedContent (js ''k'') ''script tag'', BlockedContent (js ''k'') ''javascript: URI'',
          BlockedContent (js ''k'') ''inline event handler (onX=)'', BlockedContent (js ''k'') ''iframe tag'']
   \<and> filter is_blocked (fst (validate (js ''fr.json'') [(js ''k'', js ''x'')]
         (Content (JObj [(js ''k'', JStr (js ''<script javascript: onclick= <iframe''))]))))
       = [BlockedContent (js ''k'') ''script tag'', BlockedContent (js ''k'') ''javascript: URI'',
          BlockedContent (js ''k'') ''inline event handler (onX=)'', BlockedContent (js ''k'') ''iframe tag'']"
proof -
  have cv: "case_variant (js ''<SCRIPT JAVASCRIPT: ONCLICK= <IFRAME'') (js ''<script javascript: onclick= <iframe'')"
    by code_simp
  have lower: "filter is_blocked (fst (validate (js ''fr.json'') [(js ''k'', js ''x'')]
         (Content (JObj [(js ''k'', JStr (js ''<script javascript: onclick= <iframe''))]))))
       = [BlockedContent (js ''k'') ''script tag'', BlockedContent (js ''k'') ''javascript: URI'',
          BlockedContent (js ''k'') ''inline event handler (onX=)'', BlockedContent (js ''k'') ''iframe tag'']"
    by code_simp
  from blocked_scan_ignores_case [OF cv, of "js ''fr.json''" "[(js ''k'', js ''x'')]" "[]" "js ''k''" "[]"]
    cv lower show ?thesis by simp
qed

end
